theory Spec2Isabelle
  imports Complex_Main "HOL-Library.Multiset" "HOL-Library.Sublist"
begin

section \<open>Faults, characters and containers\<close>

text \<open>
  The C++ sources report no errors of their own. What can go wrong is an access outside a
  container, which the language leaves undefined: the model makes every such access a
  value of type \<open>fault\<close>, so that a run with a defined result is \<open>Inr\<close> of it.
\<close>

datatype fault =
  VectorIndexOutOfRange | StringIndexOutOfRange | ArrayIndexOutOfRange | IntConversionOutOfRange

text \<open>The code of a character, from 0 to 255.\<close>

definition char_code :: "char \<Rightarrow> nat" where
  "char_code c = of_char c"

text \<open>
  The value of a \<open>char\<close> as the integer it promotes to (char is signed on the
  target; with an unsigned char the values from 128 on are positive and just as far
  outside the alphabet).
\<close>

definition char_value :: "char \<Rightarrow> int" where
  "char_value c = (if char_code c < 128 then int (char_code c) else int (char_code c) - 256)"

text \<open>\<open>c - 'A'\<close>, the index into the 26 counters.\<close>

definition freq_index :: "char \<Rightarrow> int" where
  "freq_index c = char_value c - 65"

text \<open>The letters \<open>'A'\<close> to \<open>'Z'\<close>: the characters whose counter exists.\<close>

definition is_upper :: "char \<Rightarrow> bool" where
  "is_upper c = (65 \<le> char_code c \<and> char_code c \<le> 90)"

text \<open>\<open>::toupper\<close> in the C locale, applied to each \<open>char\<close> by \<open>std::transform\<close>.\<close>

definition toupper :: "char \<Rightarrow> char" where
  "toupper c = (if 97 \<le> char_code c \<and> char_code c \<le> 122
                then char_of (char_code c - 32) else c)"

text \<open>\<open>v[i]\<close> read and \<open>v[i] += d\<close> on a \<open>std::vector<int>\<close>.\<close>

definition vec_at :: "int list \<Rightarrow> int \<Rightarrow> fault + int" where
  "vec_at v i = (if 0 \<le> i \<and> i < int (length v) then Inr (v ! nat i)
                 else Inl VectorIndexOutOfRange)"

definition vec_add :: "int list \<Rightarrow> int \<Rightarrow> int \<Rightarrow> fault + int list" where
  "vec_add v i d = (if 0 \<le> i \<and> i < int (length v) then Inr (v[nat i := v ! nat i + d])
                    else Inl VectorIndexOutOfRange)"

text \<open>
  \<open>s[i]\<close> on a \<open>const std::string\<close>: the character at \<open>i\<close>, the null character at
  \<open>i = s.length()\<close>, undefined beyond. A C string read through \<open>const char *\<close> behaves
  the same: its terminator sits at index \<open>length\<close>.
\<close>

definition str_at :: "string \<Rightarrow> nat \<Rightarrow> fault + char" where
  "str_at s i = (if i < length s then Inr (s ! i)
                 else if i = length s then Inr (char_of (0::nat))
                 else Inl StringIndexOutOfRange)"

section \<open>The pattern encoder \<open>EntropyCalculator::getPattern\<close>\<close>

text \<open>The loop \<open>for (char c : target) targetFreq[c - 'A']++\<close>.\<close>

fun count_target :: "string \<Rightarrow> int list \<Rightarrow> fault + int list" where
  "count_target [] freq = Inr freq"
| "count_target (c # cs) freq =
     (case vec_add freq (freq_index c) 1 of
        Inl e \<Rightarrow> Inl e
      | Inr freq' \<Rightarrow> count_target cs freq')"

text \<open>First pass, from index \<open>i\<close> on: mark green letters and reduce the frequency.\<close>

function green_pass ::
  "string \<Rightarrow> string \<Rightarrow> nat \<Rightarrow> string \<Rightarrow> int list \<Rightarrow> fault + (string \<times> int list)" where
  "green_pass guess target i result freq =
     (if i < length guess then
        (case str_at target i of
           Inl e \<Rightarrow> Inl e
         | Inr t \<Rightarrow>
             if guess ! i = t then
               (case vec_add freq (freq_index (guess ! i)) (- 1) of
                  Inl e \<Rightarrow> Inl e
                | Inr freq' \<Rightarrow> green_pass guess target (Suc i) (result[i := CHR ''G'']) freq')
             else green_pass guess target (Suc i) result freq)
      else Inr (result, freq))"
  by pat_completeness auto
termination
  by (relation "measure (\<lambda>(guess, target, i, result, freq). length guess - i)") auto

text \<open>Second pass, from index \<open>i\<close> on: mark yellow letters.\<close>

function yellow_pass :: "string \<Rightarrow> nat \<Rightarrow> string \<Rightarrow> int list \<Rightarrow> fault + string" where
  "yellow_pass guess i result freq =
     (if i < length guess then
        (if result ! i = CHR ''B'' then
           (case vec_at freq (freq_index (guess ! i)) of
              Inl e \<Rightarrow> Inl e
            | Inr n \<Rightarrow>
                if n > 0 then
                  (case vec_add freq (freq_index (guess ! i)) (- 1) of
                     Inl e \<Rightarrow> Inl e
                   | Inr freq' \<Rightarrow> yellow_pass guess (Suc i) (result[i := CHR ''Y'']) freq')
                else yellow_pass guess (Suc i) result freq)
         else yellow_pass guess (Suc i) result freq)
      else Inr result)"
  by pat_completeness auto
termination
  by (relation "measure (\<lambda>(guess, i, result, freq). length guess - i)") auto

definition getPattern :: "string \<Rightarrow> string \<Rightarrow> fault + string" where
  "getPattern guess target =
     (case count_target target (replicate 26 0) of
        Inl e \<Rightarrow> Inl e
      | Inr freq0 \<Rightarrow>
          (case green_pass guess target 0 (replicate (length guess) (CHR ''B'')) freq0 of
             Inl e \<Rightarrow> Inl e
           | Inr (result, freq1) \<Rightarrow> yellow_pass guess 0 result freq1))"

section \<open>The integer encoder \<open>get_pattern\<close> of entropy-wasm-simple.cpp\<close>

text \<open>\<open>used[j]\<close> read and \<open>used[j] = true\<close> on the array \<open>bool used[10]\<close>.\<close>

definition arr_at :: "bool list \<Rightarrow> nat \<Rightarrow> fault + bool" where
  "arr_at used j = (if j < length used then Inr (used ! j) else Inl ArrayIndexOutOfRange)"

definition arr_set :: "bool list \<Rightarrow> nat \<Rightarrow> fault + bool list" where
  "arr_set used j = (if j < length used then Inr (used[j := True]) else Inl ArrayIndexOutOfRange)"

text \<open>
  \<open>pattern += d * pow(3, k)\<close>: the sum is formed in \<open>double\<close> and converted back to
  \<open>int\<close>, which is undefined outside the range of \<open>int\<close>. \<open>pow(3, k)\<close> is taken as the
  exact power: every value below the bound is an integer that \<open>double\<close> holds exactly.
\<close>

definition add_digit :: "int \<Rightarrow> int \<Rightarrow> int \<Rightarrow> fault + int" where
  "add_digit pattern d k =
     (if - (2 ^ 31) \<le> pattern + d * 3 ^ nat k \<and> pattern + d * 3 ^ nat k < 2 ^ 31
      then Inr (pattern + d * 3 ^ nat k) else Inl IntConversionOutOfRange)"

text \<open>First pass, from index \<open>i\<close> on: exact matches.\<close>

function exact_pass ::
  "string \<Rightarrow> string \<Rightarrow> int \<Rightarrow> nat \<Rightarrow> int \<Rightarrow> bool list \<Rightarrow> fault + (int \<times> bool list)" where
  "exact_pass guess answer word_length i pattern used =
     (if int i < word_length then
        (case str_at guess i of
           Inl e \<Rightarrow> Inl e
         | Inr g \<Rightarrow>
             (case str_at answer i of
                Inl e \<Rightarrow> Inl e
              | Inr a \<Rightarrow>
                  if g = a then
                    (case add_digit pattern 2 (word_length - 1 - int i) of
                       Inl e \<Rightarrow> Inl e
                     | Inr pattern' \<Rightarrow>
                         (case arr_set used i of
                            Inl e \<Rightarrow> Inl e
                          | Inr used' \<Rightarrow>
                              exact_pass guess answer word_length (Suc i) pattern' used'))
                  else exact_pass guess answer word_length (Suc i) pattern used))
      else Inr (pattern, used))"
  by pat_completeness auto
termination
  by (relation "measure (\<lambda>(guess, answer, word_length, i, pattern, used). nat (word_length - int i))")
     auto

text \<open>
  The inner loop of the second pass, from index \<open>j\<close> on: the first \<open>j\<close> with
  \<open>!used[j] && guess[i] == answer[j]\<close>, where the loop breaks, or \<open>None\<close> when it
  runs to its end.
\<close>

function find_unused :: "char \<Rightarrow> string \<Rightarrow> int \<Rightarrow> nat \<Rightarrow> bool list \<Rightarrow> fault + nat option" where
  "find_unused g answer word_length j used =
     (if int j < word_length then
        (case arr_at used j of
           Inl e \<Rightarrow> Inl e
         | Inr u \<Rightarrow>
             if \<not> u then
               (case str_at answer j of
                  Inl e \<Rightarrow> Inl e
                | Inr a \<Rightarrow>
                    if g = a then Inr (Some j)
                    else find_unused g answer word_length (Suc j) used)
             else find_unused g answer word_length (Suc j) used)
      else Inr None)"
  by pat_completeness auto
termination
  by (relation "measure (\<lambda>(g, answer, word_length, j, used). nat (word_length - int j))") auto

text \<open>Second pass, from index \<open>i\<close> on: present but wrong position.\<close>

function present_pass ::
  "string \<Rightarrow> string \<Rightarrow> int \<Rightarrow> nat \<Rightarrow> int \<Rightarrow> bool list \<Rightarrow> fault + int" where
  "present_pass guess answer word_length i pattern used =
     (if int i < word_length then
        (case str_at guess i of
           Inl e \<Rightarrow> Inl e
         | Inr g \<Rightarrow>
             (case str_at answer i of
                Inl e \<Rightarrow> Inl e
              | Inr a \<Rightarrow>
                  if g \<noteq> a then
                    (case find_unused g answer word_length 0 used of
                       Inl e \<Rightarrow> Inl e
                     | Inr None \<Rightarrow> present_pass guess answer word_length (Suc i) pattern used
                     | Inr (Some j) \<Rightarrow>
                         (case add_digit pattern 1 (word_length - 1 - int i) of
                            Inl e \<Rightarrow> Inl e
                          | Inr pattern' \<Rightarrow>
                              (case arr_set used j of
                                 Inl e \<Rightarrow> Inl e
                               | Inr used' \<Rightarrow>
                                   present_pass guess answer word_length (Suc i) pattern' used')))
                  else present_pass guess answer word_length (Suc i) pattern used))
      else Inr pattern)"
  by pat_completeness auto
termination
  by (relation "measure (\<lambda>(guess, answer, word_length, i, pattern, used). nat (word_length - int i))")
     auto

definition get_pattern :: "string \<Rightarrow> string \<Rightarrow> int \<Rightarrow> fault + int" where
  "get_pattern guess answer word_length =
     (case exact_pass guess answer word_length 0 0 (replicate 10 False) of
        Inl e \<Rightarrow> Inl e
      | Inr (pattern, used) \<Rightarrow> present_pass guess answer word_length 0 pattern used)"

text \<open>
  The symbol string of \<open>getPattern\<close> read as a number in base 3, first position most
  significant: G is 2, Y is 1, B is 0.
\<close>

definition symbol_digit :: "char \<Rightarrow> int" where
  "symbol_digit c = (if c = CHR ''G'' then 2 else if c = CHR ''Y'' then 1 else 0)"

definition base3 :: "string \<Rightarrow> int" where
  "base3 symbols = foldl (\<lambda>acc c. 3 * acc + symbol_digit c) 0 symbols"

section \<open>What the two passes mark, in the words of the specification\<close>

text \<open>
  The occurrences of a letter that the exact matches consume, and those that the
  Present marks left of position \<open>i\<close> consume.
\<close>

definition exact_used :: "string \<Rightarrow> string \<Rightarrow> char \<Rightarrow> nat" where
  "exact_used guess target c =
     length (filter (\<lambda>j. guess ! j = target ! j \<and> guess ! j = c) [0..<length guess])"

definition present_before :: "string \<Rightarrow> string \<Rightarrow> nat \<Rightarrow> char \<Rightarrow> nat" where
  "present_before guess marks i c =
     length (filter (\<lambda>j. marks ! j = CHR ''Y'' \<and> guess ! j = c) [0..<i])"

text \<open>
  The count that remains for the guess letter at position \<open>i\<close> when the second pass
  reaches it.
\<close>

definition remaining :: "string \<Rightarrow> string \<Rightarrow> string \<Rightarrow> nat \<Rightarrow> int" where
  "remaining guess target marks i =
     int (count_list target (guess ! i)) - int (exact_used guess target (guess ! i))
       - int (present_before guess marks i (guess ! i))"

definition mark_at :: "string \<Rightarrow> string \<Rightarrow> string \<Rightarrow> nat \<Rightarrow> char" where
  "mark_at guess target marks i =
     (if guess ! i = target ! i then CHR ''G''
      else if remaining guess target marks i > 0 then CHR ''Y''
      else CHR ''B'')"

section \<open>The entropy of a guess: \<open>EntropyCalculator::calculateEntropy\<close>\<close>

record EntropyCalculator =
  allWords :: "string list"
  possibleAnswers :: "string list"

text \<open>
  \<open>setWordLists\<close>: both lists are replaced by the upper-cased copies of the arrays
  passed in.
\<close>

definition setWordLists :: "string list \<Rightarrow> string list \<Rightarrow> EntropyCalculator \<Rightarrow> EntropyCalculator" where
  "setWordLists allWordsJS possibleAnswersJS calc =
     calc\<lparr>allWords := map (map toupper) allWordsJS,
          possibleAnswers := map (map toupper) possibleAnswersJS\<rparr>"

text \<open>
  \<open>patternCounts[pattern]++\<close> on the \<open>unordered_map\<close>, kept as an association list with
  one entry per key; a key not yet present is inserted with the count 0 and incremented.
\<close>

fun pattern_incr :: "(string \<times> int) list \<Rightarrow> string \<Rightarrow> (string \<times> int) list" where
  "pattern_incr [] p = [(p, 1)]"
| "pattern_incr ((q, n) # rest) p =
     (if q = p then (q, n + 1) # rest else (q, n) # pattern_incr rest p)"

fun tally :: "string \<Rightarrow> string list \<Rightarrow> (string \<times> int) list \<Rightarrow> fault + (string \<times> int) list" where
  "tally upperGuess [] patternCounts = Inr patternCounts"
| "tally upperGuess (answer # answers) patternCounts =
     (case getPattern upperGuess answer of
        Inl e \<Rightarrow> Inl e
      | Inr pattern \<Rightarrow> tally upperGuess answers (pattern_incr patternCounts pattern))"

text \<open>
  What the program leaves to the platform. A \<open>double\<close> is represented by the real
  number it holds, and the model does not compute the results of the operations on it:
  the division, the multiplication, the subtraction and \<open>log2\<close> are parameters, so
  nothing is assumed of how they round. The order in which an \<open>unordered_map\<close> is
  iterated is a parameter as well. The conversions of an \<open>int\<close> and of a size to
  \<open>double\<close> are exact for the values a vector's size can take, and are written as
  such.
\<close>

record platform =
  fdiv :: "real \<Rightarrow> real \<Rightarrow> real"
  fmul :: "real \<Rightarrow> real \<Rightarrow> real"
  fsub :: "real \<Rightarrow> real \<Rightarrow> real"
  flog2 :: "real \<Rightarrow> real"
  walk :: "(string \<times> int) list \<Rightarrow> (string \<times> int) list"

text \<open>
  What IEEE 754 arithmetic and the \<open>log2\<close> of the C library guarantee at the values
  \<open>calculateEntropy\<close> passes them, and the standard of the iteration. A value divided
  by itself is 1, \<open>log2(1)\<close> is 0, 1 times 0 is 0 and 0 minus 0 is 0: these results are
  exact. For a count below the total, both below \<open>2^31\<close>, the quotient lies strictly
  between 0 and 1, its \<open>log2\<close> is negative, and their product is negative (its magnitude
  is far above the underflow threshold). Subtracting a negative value from one that is
  not negative gives a positive value. The iteration visits every entry of the map once.
\<close>

definition platform_contract :: "platform \<Rightarrow> bool" where
  "platform_contract pf =
     ((\<forall>x. x \<noteq> 0 \<longrightarrow> fdiv pf x x = 1)
      \<and> flog2 pf 1 = 0
      \<and> fmul pf 1 0 = 0
      \<and> fsub pf 0 0 = 0
      \<and> (\<forall>(m::int) (n::nat). 0 < m \<and> m < int n \<and> n < 2 ^ 31 \<longrightarrow>
            fmul pf (fdiv pf (real_of_int m) (real n))
                    (flog2 pf (fdiv pf (real_of_int m) (real n))) < 0)
      \<and> (\<forall>e t. 0 \<le> e \<and> t < 0 \<longrightarrow> 0 < fsub pf e t)
      \<and> (\<forall>pc. mset (walk pf pc) = mset pc))"

text \<open>
  The operations without rounding, and the entries in the order of their insertion.
  This platform meets the contract, and on it the loop below computes the sum of the
  specification exactly.
\<close>

definition exact_platform :: platform where
  "exact_platform = \<lparr>fdiv = (\<lambda>x y. x / y), fmul = (\<lambda>x y. x * y), fsub = (\<lambda>x y. x - y),
                      flog2 = log 2, walk = (\<lambda>pc. pc)\<rparr>"

text \<open>The summation loop over the entries in the order given.\<close>

fun entropy_loop :: "platform \<Rightarrow> (string \<times> int) list \<Rightarrow> real \<Rightarrow> real \<Rightarrow> real" where
  "entropy_loop pf [] totalAnswers entropy = entropy"
| "entropy_loop pf ((p, n) # rest) totalAnswers entropy =
     (let probability = fdiv pf (real_of_int n) totalAnswers
      in entropy_loop pf rest totalAnswers
           (fsub pf entropy (fmul pf probability (flog2 pf probability))))"

definition calculateEntropy :: "platform \<Rightarrow> EntropyCalculator \<Rightarrow> string \<Rightarrow> fault + real" where
  "calculateEntropy pf calc guessWord =
     (if length (possibleAnswers calc) \<le> 1 then Inr 0
      else
        (case tally (map toupper guessWord) (possibleAnswers calc) [] of
           Inl e \<Rightarrow> Inl e
         | Inr patternCounts \<Rightarrow>
             Inr (entropy_loop pf (walk pf patternCounts)
                    (real (length (possibleAnswers calc))) 0)))"

text \<open>
  \<open>calculate_entropy_c\<close> of entropy-compiled.cpp: a calculator built on the spot, whose
  lists nothing fills, asked for the entropy of the word.
\<close>

definition fresh_calculator :: EntropyCalculator where
  "fresh_calculator = \<lparr>allWords = [], possibleAnswers = []\<rparr>"

definition calculate_entropy_c :: "platform \<Rightarrow> string \<Rightarrow> fault + real" where
  "calculate_entropy_c pf word = calculateEntropy pf fresh_calculator word"

section \<open>The ranking: \<open>EntropyCalculator::calculateAllEntropies\<close>\<close>

record EntropyResult =
  word :: string
  entropy :: real
  bitsOfInfo :: real

text \<open>\<open>std::round\<close>: to the nearest integer, halves away from zero.\<close>

definition std_round :: "real \<Rightarrow> real" where
  "std_round x = (if 0 \<le> x then of_int \<lfloor>x + 1 / 2\<rfloor> else of_int \<lceil>x - 1 / 2\<rceil>)"

text \<open>The loop that fills \<open>entropyPairs\<close>, one \<open>emplace_back\<close> per word.\<close>

fun entropy_pairs ::
  "platform \<Rightarrow> EntropyCalculator \<Rightarrow> string list \<Rightarrow> (real \<times> string) list
     \<Rightarrow> fault + (real \<times> string) list" where
  "entropy_pairs pf calc [] entropyPairs = Inr entropyPairs"
| "entropy_pairs pf calc (w # ws) entropyPairs =
     (case calculateEntropy pf calc w of
        Inl e \<Rightarrow> Inl e
      | Inr h \<Rightarrow> entropy_pairs pf calc ws (entropyPairs @ [(h, w)]))"

text \<open>The comparator handed to \<open>std::sort\<close>: \<open>a.first > b.first\<close>.\<close>

definition entropy_greater :: "real \<times> string \<Rightarrow> real \<times> string \<Rightarrow> bool" where
  "entropy_greater a b = (fst a > fst b)"

text \<open>
  \<open>std::sort\<close> belongs to the standard library, not to the repository: it is a
  parameter of the model. What the standard promises of it is that the result is a
  permutation of the input in which no later element is ordered before an earlier one by
  the comparator. Elements the comparator does not separate may come out in any order.
\<close>

definition std_sort_contract ::
  "((real \<times> string) list \<Rightarrow> (real \<times> string) list) \<Rightarrow> bool" where
  "std_sort_contract std_sort =
     (\<forall>xs. mset (std_sort xs) = mset xs \<and>
           sorted_wrt (\<lambda>a b. \<not> entropy_greater b a) (std_sort xs))"

definition to_result :: "platform \<Rightarrow> real \<times> string \<Rightarrow> EntropyResult" where
  "to_result pf pair = \<lparr>word = snd pair, entropy = fst pair,
                         bitsOfInfo = fdiv pf (std_round (fmul pf (fst pair) 100)) 100\<rparr>"

definition calculateAllEntropies ::
  "platform \<Rightarrow> ((real \<times> string) list \<Rightarrow> (real \<times> string) list) \<Rightarrow> EntropyCalculator
     \<Rightarrow> fault + EntropyResult list" where
  "calculateAllEntropies pf std_sort calc =
     (if possibleAnswers calc = [] then Inr []
      else
        (case entropy_pairs pf calc (allWords calc) [] of
           Inl e \<Rightarrow> Inl e
         | Inr entropyPairs \<Rightarrow> Inr (map (to_result pf) (std_sort entropyPairs))))"

text \<open>
  One sort that meets the contract: insertion from the right, which puts an element
  before the first one that is not greater, so that equal entropies keep the order of
  the input.
\<close>

fun insert_desc :: "real \<times> string \<Rightarrow> (real \<times> string) list \<Rightarrow> (real \<times> string) list" where
  "insert_desc a [] = [a]"
| "insert_desc a (b # bs) = (if entropy_greater b a then b # insert_desc a bs else a # b # bs)"

fun insertion_sort_desc :: "(real \<times> string) list \<Rightarrow> (real \<times> string) list" where
  "insertion_sort_desc [] = []"
| "insertion_sort_desc (a # as) = insert_desc a (insertion_sort_desc as)"

section \<open>The filter: \<open>EntropyCalculator::filterWords\<close>\<close>

text \<open>\<open>word.find(c)\<close>: the first index of the character, \<open>None\<close> for \<open>npos\<close>.\<close>

fun str_find :: "string \<Rightarrow> char \<Rightarrow> nat option" where
  "str_find [] c = None"
| "str_find (x # xs) c = (if x = c then Some 0 else map_option Suc (str_find xs c))"

text \<open>
  The loop over the known positions, from index \<open>i\<close> on; its value is the flag
  \<open>valid\<close> when the loop is left. The characters are read with \<open>word[i]\<close> and
  \<open>knownPositions[i][0]\<close>.
\<close>

function green_loop :: "string list \<Rightarrow> string \<Rightarrow> nat \<Rightarrow> fault + bool" where
  "green_loop knownPositions w i =
     (if i < length knownPositions \<and> i < length w then
        (if knownPositions ! i \<noteq> [] then
           (case str_at w i of
              Inl e \<Rightarrow> Inl e
            | Inr x \<Rightarrow>
                (case str_at (knownPositions ! i) 0 of
                   Inl e \<Rightarrow> Inl e
                 | Inr y \<Rightarrow>
                     if x \<noteq> y then Inr False
                     else green_loop knownPositions w (Suc i)))
         else green_loop knownPositions w (Suc i))
      else Inr True)"
  by pat_completeness auto
termination
  by (relation "measure (\<lambda>(knownPositions, w, i). length knownPositions - i)") auto

text \<open>
  \<open>pos < word.length()\<close> compares an \<open>int\<close> with a \<open>size_t\<close>: the \<open>int\<close> is converted,
  and a negative one becomes a value of at least half the range of \<open>size_t\<close>, which no
  string's length reaches. So the test holds exactly for the positions of the word.
\<close>

definition pos_in_word :: "int \<Rightarrow> string \<Rightarrow> bool" where
  "pos_in_word pos w = (0 \<le> pos \<and> pos < int (length w))"

text \<open>
  The loop over the excluded positions of one yellow letter; \<open>word[pos]\<close> is read only
  when the test before \<open>&&\<close> holds.
\<close>

fun excluded_loop :: "char \<Rightarrow> int list \<Rightarrow> string \<Rightarrow> fault + bool" where
  "excluded_loop c [] w = Inr True"
| "excluded_loop c (pos # rest) w =
     (if pos_in_word pos w then
        (case str_at w (nat pos) of
           Inl e \<Rightarrow> Inl e
         | Inr x \<Rightarrow> if x = c then Inr False else excluded_loop c rest w)
      else excluded_loop c rest w)"

fun yellow_loop :: "(char \<times> int list) list \<Rightarrow> string \<Rightarrow> fault + bool" where
  "yellow_loop [] w = Inr True"
| "yellow_loop ((c, excludedPositions) # rest) w =
     (if str_find w c = None then Inr False
      else
        (case excluded_loop c excludedPositions w of
           Inl e \<Rightarrow> Inl e
         | Inr valid \<Rightarrow> if \<not> valid then Inr False else yellow_loop rest w))"

fun gray_loop :: "string list \<Rightarrow> string \<Rightarrow> fault + bool" where
  "gray_loop [] w = Inr True"
| "gray_loop (grayLetter # rest) w =
     (if grayLetter \<noteq> [] then
        (case str_at grayLetter 0 of
           Inl e \<Rightarrow> Inl e
         | Inr x \<Rightarrow> if str_find w x \<noteq> None then Inr False else gray_loop rest w)
      else gray_loop rest w)"

text \<open>The loop over the words, lines 186 to 233; \<open>filtered\<close> grows by \<open>push_back\<close>.\<close>

fun filter_loop ::
  "string list \<Rightarrow> string list \<Rightarrow> (char \<times> int list) list \<Rightarrow> string list \<Rightarrow> string list
     \<Rightarrow> fault + string list" where
  "filter_loop [] knownPositions yellowLetters grayLetters filtered = Inr filtered"
| "filter_loop (w # ws) knownPositions yellowLetters grayLetters filtered =
     (case green_loop knownPositions w 0 of
        Inl e \<Rightarrow> Inl e
      | Inr green \<Rightarrow>
          if \<not> green then filter_loop ws knownPositions yellowLetters grayLetters filtered
          else
            (case yellow_loop yellowLetters w of
               Inl e \<Rightarrow> Inl e
             | Inr yellow \<Rightarrow>
                 if \<not> yellow then filter_loop ws knownPositions yellowLetters grayLetters filtered
                 else
                   (case gray_loop grayLetters w of
                      Inl e \<Rightarrow> Inl e
                    | Inr valid \<Rightarrow>
                        if valid
                        then filter_loop ws knownPositions yellowLetters grayLetters (filtered @ [w])
                        else filter_loop ws knownPositions yellowLetters grayLetters filtered)))"

text \<open>
  The arguments as they arrive from JavaScript: arrays of strings, and for the yellow
  letters an array of objects with a string and an array of integers.
\<close>

record YellowItem =
  letter :: string
  excludedPositions :: "int list"

text \<open>\<open>s[0]\<close> on a non-const \<open>std::string\<close>: the null character when it is empty.\<close>

definition first_char :: "string \<Rightarrow> char" where
  "first_char s = (case s of [] \<Rightarrow> char_of (0::nat) | c # _ \<Rightarrow> c)"

definition yellow_of_js :: "YellowItem \<Rightarrow> char \<times> int list" where
  "yellow_of_js yellowItem = (toupper (first_char (letter yellowItem)), excludedPositions yellowItem)"

definition filterWords ::
  "string list \<Rightarrow> string list \<Rightarrow> YellowItem list \<Rightarrow> string list \<Rightarrow> fault + string list" where
  "filterWords wordsJS knownPositionsJS yellowLettersJS grayLettersJS =
     filter_loop (map (map toupper) wordsJS) (map (map toupper) knownPositionsJS)
       (map yellow_of_js yellowLettersJS) (map (map toupper) grayLettersJS) []"

text \<open>
  What the constraints ask of a word, in the words of the specification. A position is
  Green-constrained when its entry is not empty, and the letter it requires is the
  entry's first character.
\<close>

definition green_strict :: "string list \<Rightarrow> string \<Rightarrow> bool" where
  "green_strict knownPositions w =
     list_all (\<lambda>i. knownPositions ! i = [] \<or> (i < length w \<and> w ! i = (knownPositions ! i) ! 0))
       [0..<length knownPositions]"

text \<open>The same, asked only at the positions the word has.\<close>

definition green_within :: "string list \<Rightarrow> string \<Rightarrow> bool" where
  "green_within knownPositions w =
     list_all (\<lambda>i. knownPositions ! i = [] \<or> w ! i = (knownPositions ! i) ! 0)
       [0..<min (length knownPositions) (length w)]"

definition yellow_sat :: "(char \<times> int list) list \<Rightarrow> string \<Rightarrow> bool" where
  "yellow_sat yellowLetters w =
     list_all (\<lambda>(c, ex). c \<in> set w \<and> list_all (\<lambda>pos. \<not> (pos_in_word pos w \<and> w ! nat pos = c)) ex)
       yellowLetters"

definition gray_sat :: "string list \<Rightarrow> string \<Rightarrow> bool" where
  "gray_sat grayLetters w = list_all (\<lambda>g. g = [] \<or> g ! 0 \<notin> set w) grayLetters"

definition consistent ::
  "string list \<Rightarrow> (char \<times> int list) list \<Rightarrow> string list \<Rightarrow> string \<Rightarrow> bool" where
  "consistent knownPositions yellowLetters grayLetters w =
     (green_within knownPositions w \<and> yellow_sat yellowLetters w \<and> gray_sat grayLetters w)"

text \<open>A Yellow constraint list with the excluded positions that meet \<open>keep\<close> only.\<close>

definition prune_excluded :: "(int \<Rightarrow> bool) \<Rightarrow> (char \<times> int list) list \<Rightarrow> (char \<times> int list) list" where
  "prune_excluded keep yellowLetters = map (\<lambda>(c, ex). (c, filter keep ex)) yellowLetters"

section \<open>Auxiliary notions\<close>

text \<open>
  The counter of a letter in the frequency vector; the exact matches of a letter from
  position \<open>i\<close> on; the Present marks of a letter at the positions from \<open>i\<close> up to
  \<open>j\<close>.
\<close>

definition cnt :: "int list \<Rightarrow> char \<Rightarrow> int" where
  "cnt f c = f ! nat (freq_index c)"

definition ecount :: "string \<Rightarrow> string \<Rightarrow> nat \<Rightarrow> char \<Rightarrow> nat" where
  "ecount g t i c = length (filter (\<lambda>j. g ! j = t ! j \<and> g ! j = c) [i..<length g])"

definition ycount :: "string \<Rightarrow> string \<Rightarrow> nat \<Rightarrow> nat \<Rightarrow> char \<Rightarrow> nat" where
  "ycount g r i j c = length (filter (\<lambda>k. r ! k = CHR ''Y'' \<and> g ! k = c) [i..<j])"

text \<open>
  The pattern counts \<open>pc\<close> hold, for the patterns \<open>ps\<close> tallied so far, one entry
  for each distinct pattern, with the number of its occurrences.
\<close>

definition counts_ok :: "(string \<times> int) list \<Rightarrow> string list \<Rightarrow> bool" where
  "counts_ok pc ps = (distinct (map fst pc) \<and> set (map fst pc) = set ps
       \<and> (\<forall>(p, n) \<in> set pc. n = int (count_list ps p)))"

text \<open>
  The entropy in the words of the specification: minus the sum, over the distinct
  patterns, of \<open>count / N\<close> times its logarithm to base 2.
\<close>

definition shannon :: "string list \<Rightarrow> real" where
  "shannon ps =
     - (\<Sum>p \<in> set ps. (real (count_list ps p) / real (length ps))
                        * log 2 (real (count_list ps p) / real (length ps)))"

text \<open>
  The secondary key the specification asks for: ascending lexicographic order of the
  words, characters compared by their codes.
\<close>

fun str_less :: "string \<Rightarrow> string \<Rightarrow> bool" where
  "str_less [] [] = False"
| "str_less [] (y # ys) = True"
| "str_less (x # xs) [] = False"
| "str_less (x # xs) (y # ys) = (char_code x < char_code y \<or> (x = y \<and> str_less xs ys))"

text \<open>The occurrences of a letter in the answer that \<open>used\<close> has not marked.\<close>

definition avail :: "string \<Rightarrow> bool list \<Rightarrow> char \<Rightarrow> int" where
  "avail a used c = (\<Sum>j<length a. if \<not> used ! j \<and> a ! j = c then 1 else 0)"

section \<open>Characters\<close>

lemma char_code_inj: "char_code a = char_code b \<Longrightarrow> a = b"
  by (simp add: char_code_def)

lemma char_code_char_of: "n < 256 \<Longrightarrow> char_code (char_of n) = n"
  by (simp add: char_code_def of_char_of)

lemma toupper_idem: "toupper (toupper c) = toupper c"
  by (auto simp: toupper_def char_code_char_of)

section \<open>The filter keeps the words that meet the constraints\<close>

declare green_loop.simps [simp del]

lemma str_find_None: "(str_find w c = None) = (c \<notin> set w)"
  by (induction w) auto

lemma str_at_nth: "i < length s \<Longrightarrow> str_at s i = Inr (s ! i)"
  by (simp add: str_at_def)

lemma green_loop_iff:
  "green_loop kp w i =
     Inr (list_all (\<lambda>j. kp ! j = [] \<or> w ! j = (kp ! j) ! 0) [i..<min (length kp) (length w)])"
proof (induction kp w i rule: green_loop.induct)
  case (1 kp w i)
  show ?case
  proof (cases "i < length kp \<and> i < length w")
    case False
    then show ?thesis by (subst green_loop.simps) auto
  next
    case True
    then have u: "[i..<min (length kp) (length w)] = i # [Suc i..<min (length kp) (length w)]"
      by (simp add: upt_conv_Cons)
    show ?thesis
    proof (cases "kp ! i = []")
      case empty: True
      then have "green_loop kp w i = green_loop kp w (Suc i)"
        using True by (subst green_loop.simps) simp
      then show ?thesis using "1.IH"(2)[OF True] empty u by simp
    next
      case entry: False
      have x: "str_at w i = Inr (w ! i)" using True by (simp add: str_at_nth)
      have y: "str_at (kp ! i) 0 = Inr ((kp ! i) ! 0)" using entry by (simp add: str_at_nth)
      show ?thesis
      proof (cases "w ! i = (kp ! i) ! 0")
        case differ: False
        then have "green_loop kp w i = Inr False"
          using True entry x y by (subst green_loop.simps) simp
        then show ?thesis using u entry differ by simp
      next
        case same: True
        then have ns: "\<not> w ! i \<noteq> (kp ! i) ! 0" by simp
        have "green_loop kp w i = green_loop kp w (Suc i)"
          using True entry x y same by (subst green_loop.simps) simp
        then show ?thesis using "1.IH"(1)[OF True entry x y ns] u same by simp
      qed
    qed
  qed
qed

lemma green_loop_within: "green_loop kp w 0 = Inr (green_within kp w)"
  by (simp add: green_loop_iff green_within_def)

lemma green_within_take: "green_within (take (length w) kp) w = green_within kp w"
  by (simp add: green_within_def list_all_iff)

lemma excluded_loop_iff:
  "excluded_loop c ex w = Inr (list_all (\<lambda>pos. \<not> (pos_in_word pos w \<and> w ! nat pos = c)) ex)"
proof (induction ex)
  case Nil
  then show ?case by simp
next
  case (Cons pos ex)
  show ?case
  proof (cases "pos_in_word pos w")
    case False
    then show ?thesis using Cons.IH by simp
  next
    case True
    then have "nat pos < length w" unfolding pos_in_word_def by linarith
    then have "str_at w (nat pos) = Inr (w ! nat pos)" by (rule str_at_nth)
    then show ?thesis using True Cons.IH by simp
  qed
qed

lemma yellow_loop_sat: "yellow_loop yl w = Inr (yellow_sat yl w)"
  by (induction yl w rule: yellow_loop.induct)
     (auto simp: yellow_sat_def str_find_None excluded_loop_iff)

lemma gray_loop_sat: "gray_loop gl w = Inr (gray_sat gl w)"
proof (induction gl)
  case Nil
  then show ?case by (simp add: gray_sat_def)
next
  case (Cons g gl)
  show ?case
  proof (cases "g = []")
    case True
    then show ?thesis using Cons.IH by (simp add: gray_sat_def)
  next
    case False
    then have "str_at g 0 = Inr (g ! 0)" by (simp add: str_at_nth)
    then show ?thesis using False Cons.IH by (simp add: gray_sat_def str_find_None)
  qed
qed

lemma filter_loop_eq:
  "filter_loop ws kp yl gl acc = Inr (acc @ filter (consistent kp yl gl) ws)"
  by (induction ws arbitrary: acc)
     (simp_all add: green_loop_within yellow_loop_sat gray_loop_sat consistent_def)

lemma filterWords_eq:
  "filterWords ws kp yl gl =
     Inr (filter (consistent (map (map toupper) kp) (map yellow_of_js yl) (map (map toupper) gl))
            (map (map toupper) ws))"
  by (simp add: filterWords_def filter_loop_eq)

lemma upper_filter_upper:
  "map (map toupper) (filter P (map (map toupper) ws)) = filter P (map (map toupper) ws)"
  by (induction ws) (simp_all add: toupper_idem)

lemma yellow_sat_prune:
  "(\<And>pos. pos_in_word pos w \<Longrightarrow> keep pos) \<Longrightarrow>
     yellow_sat (prune_excluded keep yl) w = yellow_sat yl w"
  by (induction yl) (auto simp: yellow_sat_def prune_excluded_def list_all_iff)

lemma filter_consistent_prune:
  "(\<And>w pos. w \<in> set ws \<Longrightarrow> pos_in_word pos w \<Longrightarrow> keep pos) \<Longrightarrow>
     filter (consistent kp (prune_excluded keep yl) gl) ws = filter (consistent kp yl gl) ws"
  by (rule filter_cong[OF refl]) (simp add: consistent_def yellow_sat_prune)

text \<open>
  C3, as the code has it. The filter loop returns the input list restricted to the words
  that meet the three kinds of constraint, in the input's order, so its output is a
  subsequence of the input. A word meets them when it has the required letter at every
  Green-constrained position that is a position of the word, contains every Yellow
  letter and has it at none of that letter's excluded positions, and contains no Gray
  letter. A Green-constrained position beyond the end of a word asks nothing of it.
\<close>

theorem filter_loop_keeps_consistent_words:
  "filter_loop ws kp yl gl [] =
     Inr (filter (\<lambda>w. green_within kp w \<and> yellow_sat yl w \<and> gray_sat gl w) ws)
   \<and> subseq (filter (\<lambda>w. green_within kp w \<and> yellow_sat yl w \<and> gray_sat gl w) ws) ws"
proof -
  have "consistent kp yl gl = (\<lambda>w. green_within kp w \<and> yellow_sat yl w \<and> gray_sat gl w)"
    by (rule ext) (simp add: consistent_def)
  then show ?thesis by (simp add: filter_loop_eq)
qed

theorem filter_loop_keeps_consistent_words_witness:
  "filter_loop [''CRANE'', ''SLATE'', ''TRACE'', ''AT''] [[], [], ''A'', [], ''E'']
       [(CHR ''T'', [0, 9])] [''C''] [] = Inr [''SLATE'', ''AT'']
   \<and> (filter_loop [''CRANE'', ''SLATE'', ''TRACE'', ''AT''] [[], [], ''A'', [], ''E'']
       [(CHR ''T'', [0, 9])] [''C''] [] =
     Inr (filter (\<lambda>w. green_within [[], [], ''A'', [], ''E''] w \<and> yellow_sat [(CHR ''T'', [0, 9])] w
                 \<and> gray_sat [''C''] w) [''CRANE'', ''SLATE'', ''TRACE'', ''AT''])
   \<and> subseq (filter (\<lambda>w. green_within [[], [], ''A'', [], ''E''] w \<and> yellow_sat [(CHR ''T'', [0, 9])] w
                 \<and> gray_sat [''C''] w) [''CRANE'', ''SLATE'', ''TRACE'', ''AT''])
        [''CRANE'', ''SLATE'', ''TRACE'', ''AT''])"
proof -
  have v: "filter_loop [''CRANE'', ''SLATE'', ''TRACE'', ''AT''] [[], [], ''A'', [], ''E'']
       [(CHR ''T'', [0, 9])] [''C''] [] = Inr [''SLATE'', ''AT'']"
    by code_simp
  from v filter_loop_keeps_consistent_words show ?thesis by (rule conjI)
qed

text \<open>
  C3 as stated fails: with the third position Green-constrained to C, the two-letter
  word AB does not have the required letter there, and the filter keeps it.
\<close>

theorem filter_loop_short_word_counterexample:
  "filter_loop [''AB'', ''ABD''] [[], [], ''C''] [] [] [] = Inr [''AB'']
   \<and> \<not> green_strict [[], [], ''C''] ''AB''"
proof -
  have a: "filter_loop [''AB'', ''ABD''] [[], [], ''C''] [] [] [] = Inr [''AB'']" by code_simp
  have b: "\<not> green_strict [[], [], ''C''] ''AB''" by (simp add: green_strict_def)
  from a b show ?thesis by (rule conjI)
qed

text \<open>
  C6. Filtering is idempotent: \<open>filterWords\<close> returns a list, and applied to that list
  with the same Green, Yellow and Gray constraints it returns the same list.
\<close>

theorem filterWords_idempotent:
  "\<exists>out. filterWords ws kp yl gl = Inr out \<and> filterWords out kp yl gl = Inr out"
  by (simp add: filterWords_eq upper_filter_upper)

theorem filterWords_idempotent_witness:
  "filterWords [''crane'', ''slate'', ''TRACE''] [[], [], ''a'']
        [\<lparr>letter = ''t'', excludedPositions = [0]\<rparr>] [''c''] = Inr [''SLATE'']
   \<and> (\<exists>out. filterWords [''crane'', ''slate'', ''TRACE''] [[], [], ''a'']
           [\<lparr>letter = ''t'', excludedPositions = [0]\<rparr>] [''c''] = Inr out
         \<and> filterWords out [[], [], ''a''] [\<lparr>letter = ''t'', excludedPositions = [0]\<rparr>] [''c'']
             = Inr out)"
proof -
  have v: "filterWords [''crane'', ''slate'', ''TRACE''] [[], [], ''a'']
        [\<lparr>letter = ''t'', excludedPositions = [0]\<rparr>] [''c''] = Inr [''SLATE'']"
    by code_simp
  from v filterWords_idempotent show ?thesis by (rule conjI)
qed

text \<open>
  C7. The filter never fails, whatever the excluded positions of the Yellow constraints
  are, and an excluded position that is not a position of the word being checked
  (negative, or at or beyond the word's length) is ignored: the Yellow check of a word
  gives the same answer with those indices removed, and the filter's result is the same
  when every index that is a position of none of the words is removed from the
  constraints.
\<close>

theorem filter_ignores_out_of_range_positions:
  assumes "\<forall>w \<in> set ws. \<forall>pos. pos_in_word pos w \<longrightarrow> keep pos"
  shows "(\<exists>out. filter_loop ws kp yl gl [] = Inr out
            \<and> filter_loop ws kp (prune_excluded keep yl) gl [] = Inr out)
       \<and> (\<exists>valid. yellow_loop yl v = Inr valid
            \<and> yellow_loop (prune_excluded (\<lambda>pos. pos_in_word pos v) yl) v = Inr valid)"
  using assms by (simp add: filter_loop_eq filter_consistent_prune yellow_loop_sat yellow_sat_prune)

theorem filter_ignores_out_of_range_positions_witness:
  "(\<exists>out. filter_loop [''BAD'', ''ABE'', ''XYZ''] [] [(CHR ''A'', [0, 7, - 1])] [] [] = Inr out
      \<and> filter_loop [''BAD'', ''ABE'', ''XYZ''] []
          (prune_excluded (\<lambda>pos. 0 \<le> pos \<and> pos < 3) [(CHR ''A'', [0, 7, - 1])]) [] [] = Inr out)
   \<and> (\<exists>valid. yellow_loop [(CHR ''A'', [0, 7, - 1])] ''BAD'' = Inr valid
      \<and> yellow_loop (prune_excluded (\<lambda>pos. pos_in_word pos ''BAD'') [(CHR ''A'', [0, 7, - 1])]) ''BAD''
          = Inr valid)"
proof -
  have h: "\<forall>w \<in> set [''BAD'', ''ABE'', ''XYZ'']. \<forall>pos. pos_in_word pos w \<longrightarrow> 0 \<le> pos \<and> pos < 3"
    by (simp add: pos_in_word_def)
  show ?thesis
    by (rule filter_ignores_out_of_range_positions
          [where keep = "\<lambda>pos. 0 \<le> pos \<and> pos < 3", OF h])
qed

text \<open>
  C10. The Green check looks at the positions below both the number of Green entries and
  the word's length, and an empty entry asks nothing: the check succeeds exactly when
  every such position with a non-empty entry carries the entry's first character. So
  the entries beyond the end of a word never reject it: the check gives the same answer
  with the constraint list cut to the word's length.
\<close>

theorem green_check_within_word:
  "green_loop kp w 0 =
     Inr (\<forall>i. i < length kp \<and> i < length w \<and> kp ! i \<noteq> [] \<longrightarrow> w ! i = (kp ! i) ! 0)
   \<and> green_loop (take (length w) kp) w 0 = green_loop kp w 0"
proof (rule conjI)
  show "green_loop kp w 0 =
     Inr (\<forall>i. i < length kp \<and> i < length w \<and> kp ! i \<noteq> [] \<longrightarrow> w ! i = (kp ! i) ! 0)"
    by (auto simp add: green_loop_iff list_all_iff)
  show "green_loop (take (length w) kp) w 0 = green_loop kp w 0"
    by (simp only: green_loop_within green_within_take)
qed

theorem green_check_within_word_witness:
  "green_loop (take (length ''AR'') [[], ''R'', [], [], ''E'']) ''AR'' 0
     = green_loop [[], ''R'', [], [], ''E''] ''AR'' 0
   \<and> green_loop [[], ''R'', [], [], ''E''] ''AR'' 0 = Inr True"
proof -
  have a: "green_loop (take (length ''AR'') [[], ''R'', [], [], ''E'']) ''AR'' 0
             = green_loop [[], ''R'', [], [], ''E''] ''AR'' 0"
    using green_check_within_word [of "[[], ''R'', [], [], ''E'']" "''AR''"] by (rule conjunct2)
  have b: "green_loop [[], ''R'', [], [], ''E''] ''AR'' 0 = Inr True"
    by code_simp
  from a b show ?thesis by (rule conjI)
qed

section \<open>The two passes of \<open>getPattern\<close>\<close>

declare green_pass.simps [simp del] yellow_pass.simps [simp del]

lemma char_code_lt: "char_code c < 256"
proof -
  have "(of_char c :: nat) mod 256 = of_char c" by (rule of_char_mod_256)
  moreover have "(of_char c :: nat) mod 256 < 256" by simp
  ultimately show ?thesis by (simp add: char_code_def)
qed

lemma char_value_inj: "char_value a = char_value b \<Longrightarrow> a = b"
proof -
  assume h: "char_value a = char_value b"
  have "char_code a < 256" "char_code b < 256" by (rule char_code_lt)+
  with h have "char_code a = char_code b"
    by (auto simp: char_value_def split: if_splits)
  then show ?thesis by (rule char_code_inj)
qed

lemma freq_index_inj: "freq_index a = freq_index b \<Longrightarrow> a = b"
  by (rule char_value_inj) (simp add: freq_index_def)

lemma upper_index: "is_upper c \<Longrightarrow> 0 \<le> freq_index c \<and> freq_index c < 26"
  by (auto simp: is_upper_def freq_index_def char_value_def)

lemma index_upper: "0 \<le> freq_index c \<Longrightarrow> freq_index c < 26 \<Longrightarrow> is_upper c"
  using char_code_lt[of c] by (auto simp: is_upper_def freq_index_def char_value_def split: if_splits)

lemma vec_at_upper: "is_upper c \<Longrightarrow> length f = 26 \<Longrightarrow> vec_at f (freq_index c) = Inr (cnt f c)"
  using upper_index[of c] by (simp add: vec_at_def cnt_def)

lemma vec_add_upper:
  "is_upper c \<Longrightarrow> length f = 26 \<Longrightarrow>
     vec_add f (freq_index c) d = Inr (f[nat (freq_index c) := cnt f c + d])"
  using upper_index[of c] by (simp add: vec_add_def cnt_def)

lemma cnt_update:
  "is_upper c \<Longrightarrow> is_upper b \<Longrightarrow> length f = 26 \<Longrightarrow>
     cnt (f[nat (freq_index c) := v]) b = (if b = c then v else cnt f b)"
proof -
  assume c: "is_upper c" and b: "is_upper b" and f: "length f = 26"
  have "nat (freq_index b) = nat (freq_index c) \<longleftrightarrow> b = c"
    using upper_index[OF c] upper_index[OF b] freq_index_inj[of b c] by auto
  then show ?thesis using upper_index[OF c] f by (auto simp: cnt_def nth_list_update)
qed

lemma count_target_ok:
  "list_all is_upper t \<Longrightarrow> length f = 26 \<Longrightarrow>
     \<exists>f'. count_target t f = Inr f' \<and> length f' = 26
          \<and> (\<forall>c. is_upper c \<longrightarrow> cnt f' c = cnt f c + int (count_list t c))"
proof (induction t arbitrary: f)
  case Nil
  then show ?case by simp
next
  case (Cons a t)
  let ?f1 = "f[nat (freq_index a) := cnt f a + 1]"
  have a: "is_upper a" and t: "list_all is_upper t" using Cons.prems by simp_all
  have step: "vec_add f (freq_index a) 1 = Inr ?f1"
    using a Cons.prems(2) by (rule vec_add_upper)
  have len: "length ?f1 = 26" using Cons.prems(2) by simp
  obtain f' where f': "count_target t ?f1 = Inr f'" "length f' = 26"
    "\<forall>c. is_upper c \<longrightarrow> cnt f' c = cnt ?f1 c + int (count_list t c)"
    using Cons.IH[OF t len] by blast
  have "\<forall>c. is_upper c \<longrightarrow> cnt f' c = cnt f c + int (count_list (a # t) c)"
    using f'(3) a Cons.prems(2) by (auto simp: cnt_update)
  then show ?case using step f' by simp
qed

lemma ecount_step:
  "i < length g \<Longrightarrow>
     ecount g t i c = (if g ! i = t ! i \<and> g ! i = c then 1 else 0) + ecount g t (Suc i) c"
  by (auto simp: ecount_def upt_conv_Cons)

lemma ecount_end: "length g \<le> i \<Longrightarrow> ecount g t i c = 0"
  by (simp add: ecount_def)

lemma str_at_in: "i < length s \<Longrightarrow> str_at s i = Inr (s ! i)"
  by (simp add: str_at_def)

lemma green_pass_ok:
  assumes "list_all is_upper g" "length g \<le> length t" "length f = 26" "length res = length g"
  shows "\<exists>res' f'. green_pass g t i res f = Inr (res', f') \<and> length res' = length g
           \<and> length f' = 26
           \<and> (\<forall>j<length g. res' ! j = (if i \<le> j \<and> g ! j = t ! j then CHR ''G'' else res ! j))
           \<and> (\<forall>c. is_upper c \<longrightarrow> cnt f' c = cnt f c - int (ecount g t i c))"
  using assms
proof (induction g t i res f rule: green_pass.induct)
  case (1 g t i res f)
  show ?case
  proof (cases "i < length g")
    case False
    then have "green_pass g t i res f = Inr (res, f)"
      by (subst green_pass.simps) simp
    then show ?thesis using False "1.prems" by (simp add: ecount_end)
  next
    case True
    have at: "str_at t i = Inr (t ! i)" using True "1.prems"(2) by (simp add: str_at_in)
    have up: "is_upper (g ! i)" using True "1.prems"(1) by (simp add: list_all_length)
    show ?thesis
    proof (cases "g ! i = t ! i")
      case eq: True
      let ?f1 = "f[nat (freq_index (g ! i)) := cnt f (g ! i) + (- 1)]"
      let ?r1 = "res[i := CHR ''G'']"
      have add: "vec_add f (freq_index (g ! i)) (- 1) = Inr ?f1"
        using up "1.prems"(3) by (rule vec_add_upper)
      have unfold: "green_pass g t i res f = green_pass g t (Suc i) ?r1 ?f1"
        using True at eq add by (subst green_pass.simps) simp
      have "length ?f1 = 26" "length ?r1 = length g" using "1.prems" by simp_all
      from "1.IH"(1)[OF True at eq add "1.prems"(1,2) this]
      obtain res' f' where r: "green_pass g t (Suc i) ?r1 ?f1 = Inr (res', f')"
        "length res' = length g" "length f' = 26"
        "\<forall>j<length g. res' ! j = (if Suc i \<le> j \<and> g ! j = t ! j then CHR ''G'' else ?r1 ! j)"
        "\<forall>c. is_upper c \<longrightarrow> cnt f' c = cnt ?f1 c - int (ecount g t (Suc i) c)"
        by blast
      have marks: "\<forall>j<length g. res' ! j = (if i \<le> j \<and> g ! j = t ! j then CHR ''G'' else res ! j)"
      proof (intro allI impI)
        fix j assume j: "j < length g"
        show "res' ! j = (if i \<le> j \<and> g ! j = t ! j then CHR ''G'' else res ! j)"
        proof (cases "j = i")
          case True
          then show ?thesis using r(4) j eq "1.prems"(4) by simp
        next
          case False
          then show ?thesis using r(4) j by (auto simp: nth_list_update)
        qed
      qed
      have counts: "\<forall>c. is_upper c \<longrightarrow> cnt f' c = cnt f c - int (ecount g t i c)"
        using r(5) up "1.prems"(3) eq True by (auto simp: cnt_update ecount_step)
      show ?thesis using unfold r(1,2,3) marks counts by simp
    next
      case ne: False
      have unfold: "green_pass g t i res f = green_pass g t (Suc i) res f"
        using True at ne by (subst green_pass.simps) simp
      from "1.IH"(2)[OF True at ne "1.prems"]
      obtain res' f' where r: "green_pass g t (Suc i) res f = Inr (res', f')"
        "length res' = length g" "length f' = 26"
        "\<forall>j<length g. res' ! j = (if Suc i \<le> j \<and> g ! j = t ! j then CHR ''G'' else res ! j)"
        "\<forall>c. is_upper c \<longrightarrow> cnt f' c = cnt f c - int (ecount g t (Suc i) c)"
        by blast
      have marks: "\<forall>j<length g. res' ! j = (if i \<le> j \<and> g ! j = t ! j then CHR ''G'' else res ! j)"
      proof (intro allI impI)
        fix j assume j: "j < length g"
        show "res' ! j = (if i \<le> j \<and> g ! j = t ! j then CHR ''G'' else res ! j)"
          using r(4) j ne by (cases "j = i") auto
      qed
      have counts: "\<forall>c. is_upper c \<longrightarrow> cnt f' c = cnt f c - int (ecount g t i c)"
        using r(5) ne True by (auto simp: ecount_step)
      show ?thesis using unfold r(1,2,3) marks counts by simp
    qed
  qed
qed

lemma ycount_step:
  "i < j \<Longrightarrow>
     ycount g r i j c = (if r ! i = CHR ''Y'' \<and> g ! i = c then 1 else 0) + ycount g r (Suc i) j c"
  by (auto simp: ycount_def upt_conv_Cons)

lemma ycount_empty: "j \<le> i \<Longrightarrow> ycount g r i j c = 0"
  by (simp add: ycount_def)

lemma yellow_pass_ok:
  assumes "list_all is_upper g" "length f = 26" "length res = length g"
    "\<forall>k<length g. i \<le> k \<longrightarrow> res ! k \<noteq> CHR ''Y''"
  shows "\<exists>res'. yellow_pass g i res f = Inr res' \<and> length res' = length g
           \<and> (\<forall>j<length g. res' ! j =
                 (if i \<le> j \<and> res ! j = CHR ''B'' \<and> cnt f (g ! j) - int (ycount g res' i j (g ! j)) > 0
                  then CHR ''Y'' else res ! j))"
  using assms
proof (induction g i res f rule: yellow_pass.induct)
  case (1 g i res f)
  show ?case
  proof (cases "i < length g")
    case False
    then have "yellow_pass g i res f = Inr res"
      by (subst yellow_pass.simps) simp
    then show ?thesis using False "1.prems" by simp
  next
    case True
    have up: "is_upper (g ! i)" using True "1.prems"(1) by (simp add: list_all_length)
    have at: "vec_at f (freq_index (g ! i)) = Inr (cnt f (g ! i))"
      using up "1.prems"(2) by (rule vec_at_upper)
    have upj: "\<And>j. j < length g \<Longrightarrow> is_upper (g ! j)"
      using "1.prems"(1) by (simp add: list_all_length)
    show ?thesis
    proof (cases "res ! i = CHR ''B''")
      case notB: False
      have unfold: "yellow_pass g i res f = yellow_pass g (Suc i) res f"
        using True notB by (subst yellow_pass.simps) simp
      have pre: "\<forall>k<length g. Suc i \<le> k \<longrightarrow> res ! k \<noteq> CHR ''Y''"
        using "1.prems"(4) by simp
      from "1.IH"(3)[OF True notB "1.prems"(1,2,3) pre]
      obtain res' where r: "yellow_pass g (Suc i) res f = Inr res'" "length res' = length g"
        "\<forall>j<length g. res' ! j =
            (if Suc i \<le> j \<and> res ! j = CHR ''B'' \<and> cnt f (g ! j) - int (ycount g res' (Suc i) j (g ! j)) > 0
             then CHR ''Y'' else res ! j)"
        by blast
      have ri: "res' ! i = res ! i" using r(3) True by simp
      have riY: "res' ! i \<noteq> CHR ''Y''" using ri "1.prems"(4) True by simp
      have marks: "\<forall>j<length g. res' ! j =
            (if i \<le> j \<and> res ! j = CHR ''B'' \<and> cnt f (g ! j) - int (ycount g res' i j (g ! j)) > 0
             then CHR ''Y'' else res ! j)"
      proof (intro allI impI)
        fix j assume j: "j < length g"
        consider "j < i" | "j = i" | "i < j" by linarith
        then show "res' ! j =
            (if i \<le> j \<and> res ! j = CHR ''B'' \<and> cnt f (g ! j) - int (ycount g res' i j (g ! j)) > 0
             then CHR ''Y'' else res ! j)"
        proof cases
          case 1 then show ?thesis using r(3) j by simp
        next
          case 2 then show ?thesis using ri notB by simp
        next
          case 3
          then have "ycount g res' i j (g ! j) = ycount g res' (Suc i) j (g ! j)"
            using riY by (simp add: ycount_step)
          then show ?thesis using r(3) j 3 by simp
        qed
      qed
      show ?thesis using unfold r(1,2) marks by simp
    next
      case isB: True
      show ?thesis
      proof (cases "cnt f (g ! i) > 0")
        case pos: True
        let ?f1 = "f[nat (freq_index (g ! i)) := cnt f (g ! i) + (- 1)]"
        let ?r1 = "res[i := CHR ''Y'']"
        have add: "vec_add f (freq_index (g ! i)) (- 1) = Inr ?f1"
          using up "1.prems"(2) by (rule vec_add_upper)
        have unfold: "yellow_pass g i res f = yellow_pass g (Suc i) ?r1 ?f1"
          using True isB at pos add by (subst yellow_pass.simps) simp
        have l: "length ?f1 = 26" "length ?r1 = length g" using "1.prems" by simp_all
        have pre: "\<forall>k<length g. Suc i \<le> k \<longrightarrow> ?r1 ! k \<noteq> CHR ''Y''"
          using "1.prems"(4) by (simp add: nth_list_update)
        from "1.IH"(1)[OF True isB at pos add "1.prems"(1) l pre]
        obtain res' where r: "yellow_pass g (Suc i) ?r1 ?f1 = Inr res'" "length res' = length g"
          "\<forall>j<length g. res' ! j =
              (if Suc i \<le> j \<and> ?r1 ! j = CHR ''B'' \<and> cnt ?f1 (g ! j) - int (ycount g res' (Suc i) j (g ! j)) > 0
               then CHR ''Y'' else ?r1 ! j)"
          by blast
        have ri: "res' ! i = CHR ''Y''" using r(3) True "1.prems"(3) by simp
        have marks: "\<forall>j<length g. res' ! j =
              (if i \<le> j \<and> res ! j = CHR ''B'' \<and> cnt f (g ! j) - int (ycount g res' i j (g ! j)) > 0
               then CHR ''Y'' else res ! j)"
        proof (intro allI impI)
          fix j assume j: "j < length g"
          consider "j < i" | "j = i" | "i < j" by linarith
          then show "res' ! j =
              (if i \<le> j \<and> res ! j = CHR ''B'' \<and> cnt f (g ! j) - int (ycount g res' i j (g ! j)) > 0
               then CHR ''Y'' else res ! j)"
          proof cases
            case 1 then show ?thesis using r(3) j by simp
          next
            case 2 then show ?thesis using ri isB pos by (simp add: ycount_empty)
          next
            case 3
            have a: "int (ycount g res' i j (g ! j))
                   = (if g ! i = g ! j then 1 else 0) + int (ycount g res' (Suc i) j (g ! j))"
              using 3 ri by (simp add: ycount_step)
            have b: "cnt ?f1 (g ! j) = (if g ! j = g ! i then cnt f (g ! i) - 1 else cnt f (g ! j))"
              using up upj[OF j] "1.prems"(2) by (simp add: cnt_update)
            have c: "?r1 ! j = res ! j" using 3 by simp
            have "cnt ?f1 (g ! j) - int (ycount g res' (Suc i) j (g ! j))
                = cnt f (g ! j) - int (ycount g res' i j (g ! j))"
              using a b by auto
            then show ?thesis using r(3) j 3 c by simp
          qed
        qed
        show ?thesis using unfold r(1,2) marks by simp
      next
        case npos: False
        have unfold: "yellow_pass g i res f = yellow_pass g (Suc i) res f"
          using True isB at npos by (subst yellow_pass.simps) simp
        have pre: "\<forall>k<length g. Suc i \<le> k \<longrightarrow> res ! k \<noteq> CHR ''Y''"
          using "1.prems"(4) by simp
        from "1.IH"(2)[OF True isB at npos "1.prems"(1,2,3) pre]
        obtain res' where r: "yellow_pass g (Suc i) res f = Inr res'" "length res' = length g"
          "\<forall>j<length g. res' ! j =
              (if Suc i \<le> j \<and> res ! j = CHR ''B'' \<and> cnt f (g ! j) - int (ycount g res' (Suc i) j (g ! j)) > 0
               then CHR ''Y'' else res ! j)"
          by blast
        have ri: "res' ! i = CHR ''B''" using r(3) True isB by simp
        have marks: "\<forall>j<length g. res' ! j =
              (if i \<le> j \<and> res ! j = CHR ''B'' \<and> cnt f (g ! j) - int (ycount g res' i j (g ! j)) > 0
               then CHR ''Y'' else res ! j)"
        proof (intro allI impI)
          fix j assume j: "j < length g"
          consider "j < i" | "j = i" | "i < j" by linarith
          then show "res' ! j =
              (if i \<le> j \<and> res ! j = CHR ''B'' \<and> cnt f (g ! j) - int (ycount g res' i j (g ! j)) > 0
               then CHR ''Y'' else res ! j)"
          proof cases
            case 1 then show ?thesis using r(3) j by simp
          next
            case 2 then show ?thesis using ri isB npos by (simp add: ycount_empty)
          next
            case 3
            then have "ycount g res' i j (g ! j) = ycount g res' (Suc i) j (g ! j)"
              using ri by (simp add: ycount_step)
            then show ?thesis using r(3) j 3 by simp
          qed
        qed
        show ?thesis using unfold r(1,2) marks by simp
      qed
    qed
  qed
qed

lemma cnt_replicate: "is_upper c \<Longrightarrow> cnt (replicate 26 0) c = 0"
proof -
  assume "is_upper c"
  then have "nat (freq_index c) < 26" using upper_index[of c] by linarith
  then show ?thesis by (simp only: cnt_def nth_replicate)
qed

lemma getPattern_ok:
  assumes g: "list_all is_upper g" and t: "list_all is_upper t" and len: "length g \<le> length t"
  shows "\<exists>r. getPattern g t = Inr r \<and> length r = length g
           \<and> (\<forall>j<length g. r ! j =
                 (if g ! j = t ! j then CHR ''G''
                  else if int (count_list t (g ! j)) - int (ecount g t 0 (g ! j))
                            - int (ycount g r 0 j (g ! j)) > 0 then CHR ''Y''
                  else CHR ''B''))"
proof -
  obtain f0 where f0: "count_target t (replicate 26 0) = Inr f0" "length f0 = 26"
    "\<forall>c. is_upper c \<longrightarrow> cnt f0 c = cnt (replicate 26 0) c + int (count_list t c)"
    using count_target_ok[OF t, of "replicate 26 0"] by auto
  let ?r0 = "replicate (length g) (CHR ''B'')"
  obtain r1 f1 where p1: "green_pass g t 0 ?r0 f0 = Inr (r1, f1)" "length r1 = length g"
    "length f1 = 26"
    "\<forall>j<length g. r1 ! j = (if 0 \<le> j \<and> g ! j = t ! j then CHR ''G'' else ?r0 ! j)"
    "\<forall>c. is_upper c \<longrightarrow> cnt f1 c = cnt f0 c - int (ecount g t 0 c)"
    using green_pass_ok[OF g len f0(2), of ?r0 0] by auto
  have r1: "\<And>j. j < length g \<Longrightarrow> r1 ! j = (if g ! j = t ! j then CHR ''G'' else CHR ''B'')"
    using p1(4) by simp
  have noY: "\<forall>k<length g. 0 \<le> k \<longrightarrow> r1 ! k \<noteq> CHR ''Y''"
    using r1 by simp
  obtain r where p2: "yellow_pass g 0 r1 f1 = Inr r" "length r = length g"
    "\<forall>j<length g. r ! j =
        (if 0 \<le> j \<and> r1 ! j = CHR ''B'' \<and> cnt f1 (g ! j) - int (ycount g r 0 j (g ! j)) > 0
         then CHR ''Y'' else r1 ! j)"
    using yellow_pass_ok[OF g p1(3) p1(2) noY] by auto
  have upj: "\<And>j. j < length g \<Longrightarrow> is_upper (g ! j)"
    using g by (simp add: list_all_length)
  have f1: "\<And>j. j < length g \<Longrightarrow>
      cnt f1 (g ! j) = int (count_list t (g ! j)) - int (ecount g t 0 (g ! j))"
    using p1(5) f0(3) upj by (simp add: cnt_replicate)
  have marks: "\<forall>j<length g. r ! j =
                 (if g ! j = t ! j then CHR ''G''
                  else if int (count_list t (g ! j)) - int (ecount g t 0 (g ! j))
                            - int (ycount g r 0 j (g ! j)) > 0 then CHR ''Y''
                  else CHR ''B'')"
  proof (intro allI impI)
    fix j assume j: "j < length g"
    show "r ! j =
                 (if g ! j = t ! j then CHR ''G''
                  else if int (count_list t (g ! j)) - int (ecount g t 0 (g ! j))
                            - int (ycount g r 0 j (g ! j)) > 0 then CHR ''Y''
                  else CHR ''B'')"
      using p2(3) j r1[OF j] f1[OF j] by simp
  qed
  have "getPattern g t = Inr r" using f0(1) p1(1) p2(1) by (simp add: getPattern_def)
  then show ?thesis using p2(2) marks by blast
qed

lemma getPattern_succeeds:
  "list_all is_upper g \<Longrightarrow> list_all is_upper t \<Longrightarrow> length g \<le> length t \<Longrightarrow>
     \<exists>r. getPattern g t = Inr r \<and> length r = length g"
  using getPattern_ok by blast

lemma length_filter_mono:
  "(\<And>x. x \<in> set xs \<Longrightarrow> P x \<Longrightarrow> Q x) \<Longrightarrow> length (filter P xs) \<le> length (filter Q xs)"
  by (induction xs) auto

lemma count_list_nth: "count_list t c = length (filter (\<lambda>j. t ! j = c) [0..<length t])"
proof -
  have "count_list t c = length (filter ((=) c) (map ((!) t) [0..<length t]))"
    by (simp add: map_nth count_list_eq_length_filter)
  also have "\<dots> = length (filter (\<lambda>j. t ! j = c) [0..<length t])"
  proof -
    have "filter ((=) c) (map ((!) t) xs) = map ((!) t) (filter (\<lambda>j. t ! j = c) xs)" for xs
      by (induction xs) auto
    then show ?thesis by simp
  qed
  finally show ?thesis .
qed

lemma ecount_le_count: "length g = length t \<Longrightarrow> ecount g t 0 c \<le> count_list t c"
proof -
  assume len: "length g = length t"
  have "length (filter (\<lambda>j. g ! j = t ! j \<and> g ! j = c) [0..<length g])
          \<le> length (filter (\<lambda>j. t ! j = c) [0..<length g])"
    by (rule length_filter_mono) auto
  then show ?thesis by (simp add: ecount_def count_list_nth[of t c] len)
qed

lemma ycount_Suc:
  "ycount g r 0 (Suc i) c = ycount g r 0 i c + (if r ! i = CHR ''Y'' \<and> g ! i = c then 1 else 0)"
  by (simp add: ycount_def)


text \<open>
  C1. For a guess and a target of equal length over the letters A to Z, the encoder
  returns one mark per position. A position is marked G exactly when guess and target
  agree there. Any other position is marked Y exactly when the count that remains for
  its letter is positive (the letter's occurrences in the target, less one for every
  exact match of that letter anywhere in the word, less one for every Y mark of that
  letter further left), and B otherwise. So the exact pass is complete before the first
  Y is given, and the exact matches and the Y marks of a letter together never exceed
  the letter's occurrences in the target.
\<close>

theorem getPattern_two_passes:
  assumes len: "length guess = length target"
    and g: "list_all is_upper guess" and t: "list_all is_upper target"
  shows "\<exists>marks. getPattern guess target = Inr marks \<and> length marks = length guess
           \<and> (\<forall>i<length guess. marks ! i = mark_at guess target marks i)
           \<and> (\<forall>c. exact_used guess target c + present_before guess marks (length guess) c
                  \<le> count_list target c)"
proof -
  obtain r where r: "getPattern guess target = Inr r" "length r = length guess"
    "\<forall>j<length guess. r ! j =
                 (if guess ! j = target ! j then CHR ''G''
                  else if int (count_list target (guess ! j)) - int (ecount guess target 0 (guess ! j))
                            - int (ycount guess r 0 j (guess ! j)) > 0 then CHR ''Y''
                  else CHR ''B'')"
    using getPattern_ok[OF g t] len by auto
  have e: "\<And>c. exact_used guess target c = ecount guess target 0 c"
    by (simp add: exact_used_def ecount_def)
  have p: "\<And>i c. present_before guess r i c = ycount guess r 0 i c"
    by (simp add: present_before_def ycount_def)
  have marks: "\<forall>i<length guess. r ! i = mark_at guess target r i"
    using r(3) by (simp add: mark_at_def remaining_def e p)
  have steal: "exact_used guess target c + present_before guess r i c \<le> count_list target c"
    if "i \<le> length guess" for i c
    using that
  proof (induction i)
    case 0
    then show ?case using ecount_le_count[OF len, of c] by (simp add: e p ycount_def)
  next
    case (Suc i)
    then have i: "i < length guess" and IH: "exact_used guess target c + present_before guess r i c \<le> count_list target c"
      by simp_all
    show ?case
    proof (cases "r ! i = CHR ''Y'' \<and> guess ! i = c")
      case False
      then show ?thesis using IH by (auto simp: p ycount_Suc)
    next
      case True
      then have "int (count_list target c) - int (ecount guess target 0 c) - int (ycount guess r 0 i c) > 0"
        using r(3) i by (auto split: if_splits)
      then show ?thesis using True by (simp add: e p ycount_Suc)
    qed
  qed
  show ?thesis using r(1,2) marks steal by blast
qed

theorem getPattern_two_passes_witness:
  "getPattern ''SPEED'' ''ERASE'' = Inr ''YBYYB''
   \<and> (\<exists>marks. getPattern ''SPEED'' ''ERASE'' = Inr marks \<and> length marks = length ''SPEED''
           \<and> (\<forall>i<length ''SPEED''. marks ! i = mark_at ''SPEED'' ''ERASE'' marks i)
           \<and> (\<forall>c. exact_used ''SPEED'' ''ERASE'' c + present_before ''SPEED'' marks (length ''SPEED'') c
                  \<le> count_list ''ERASE'' c))"
proof -
  have h1: "length ''SPEED'' = length ''ERASE''" by simp
  have h2: "list_all is_upper ''SPEED''" by (simp add: is_upper_def char_code_def)
  have h3: "list_all is_upper ''ERASE''" by (simp add: is_upper_def char_code_def)
  have v: "getPattern ''SPEED'' ''ERASE'' = Inr ''YBYYB''" by code_simp
  from v getPattern_two_passes [OF h1 h2 h3] show ?thesis by (rule conjI)
qed

text \<open>
  C5, as the code has it. The encoder compares no lengths and reports no error: for words
  over the letters A to Z it returns a pattern, one mark per position of the guess,
  whenever the guess is not longer than the target, equal lengths included.
\<close>

theorem getPattern_checks_no_length:
  assumes "list_all is_upper guess" "list_all is_upper target" "length guess \<le> length target"
  shows "\<exists>marks. getPattern guess target = Inr marks \<and> length marks = length guess"
  using assms by (rule getPattern_succeeds)

theorem getPattern_checks_no_length_witness:
  "\<exists>marks. getPattern ''CRANE'' ''SLATES'' = Inr marks \<and> length marks = length ''CRANE''"
proof -
  have h1: "list_all is_upper ''CRANE''" by (simp add: is_upper_def char_code_def)
  have h2: "list_all is_upper ''SLATES''" by (simp add: is_upper_def char_code_def)
  have h3: "length ''CRANE'' \<le> length ''SLATES''" by simp
  show ?thesis by (rule getPattern_checks_no_length [OF h1 h2 h3])
qed

text \<open>
  C5 as stated fails: a guess of one letter against a target of two is encoded, with no
  length-mismatch error.
\<close>

theorem getPattern_length_mismatch_counterexample:
  "length ''A'' \<noteq> length ''AB'' \<and> getPattern ''A'' ''AB'' = Inr ''G''"
  by code_simp

section \<open>The two encoders agree\<close>

declare exact_pass.simps [simp del] find_unused.simps [simp del] present_pass.simps [simp del]

lemma add_digit_ok:
  assumes "i < L" "0 \<le> pattern" "pattern + 3 ^ (L - i) \<le> 2 ^ 31" "d = 1 \<or> d = 2"
  shows "add_digit pattern d (int L - 1 - int i) = Inr (pattern + d * 3 ^ (L - 1 - i))"
    and "0 \<le> pattern + d * 3 ^ (L - 1 - i)"
    and "pattern + d * 3 ^ (L - 1 - i) + 3 ^ (L - Suc i) \<le> 2 ^ 31"
proof -
  define x :: int where "x = 3 ^ (L - 1 - i)"
  have n: "nat (int L - 1 - int i) = L - 1 - i" using assms(1) by linarith
  have "L - i = Suc (L - 1 - i)" using assms(1) by linarith
  then have p: "(3::int) ^ (L - i) = 3 * x" by (simp only: power_Suc x_def)
  have q: "0 < x" by (simp add: x_def)
  have s: "(3::int) ^ (L - Suc i) = x" by (simp add: x_def)
  have dx: "d * x = x \<or> d * x = 2 * x" using assms(4) by auto
  have bound: "pattern + 3 * x \<le> 2 ^ 31" using assms(3) p by simp
  have r0: "0 \<le> pattern + d * x" using assms(2) q dx by linarith
  have r1: "pattern + d * x + x \<le> 2 ^ 31" using bound q dx by linarith
  have r2: "pattern + d * x < 2 ^ 31" using r1 q by linarith
  have r3: "- (2 ^ 31) \<le> pattern + d * x" using r0 by simp
  show "0 \<le> pattern + d * 3 ^ (L - 1 - i)" using r0 by (simp only: x_def)
  show "pattern + d * 3 ^ (L - 1 - i) + 3 ^ (L - Suc i) \<le> 2 ^ 31" using r1 by (simp only: s x_def[symmetric])
  show "add_digit pattern d (int L - 1 - int i) = Inr (pattern + d * 3 ^ (L - 1 - i))"
    unfolding add_digit_def n x_def[symmetric] using r2 r3 by simp
qed

lemma exact_pass_ok:
  assumes "length g = L" "length a = L" "L \<le> 10" "length used = 10"
    "0 \<le> pattern" "pattern + 3 ^ (L - i) \<le> 2 ^ 31"
  shows "\<exists>pattern' used'. exact_pass g a (int L) i pattern used = Inr (pattern', used')
           \<and> length used' = 10 \<and> 0 \<le> pattern'
           \<and> pattern' = pattern + (\<Sum>j = i..<L. if g ! j = a ! j then 2 * 3 ^ (L - 1 - j) else 0)
           \<and> (\<forall>j<10. used' ! j = (used ! j \<or> (i \<le> j \<and> j < L \<and> g ! j = a ! j)))"
  using assms
proof (induction g a "int L" i pattern used rule: exact_pass.induct)
  case (1 g a i pattern used)
  show ?case
  proof (cases "i < L")
    case False
    then have "exact_pass g a (int L) i pattern used = Inr (pattern, used)"
      by (subst exact_pass.simps) simp
    then show ?thesis using False "1.prems" by auto
  next
    case True
    have lt: "int i < int L" using True by simp
    have sg: "str_at g i = Inr (g ! i)" and sa: "str_at a i = Inr (a ! i)"
      using True "1.prems"(1,2) by (simp_all add: str_at_def)
    have split: "(\<Sum>j = i..<L. if g ! j = a ! j then 2 * 3 ^ (L - 1 - j) else (0::int))
        = (if g ! i = a ! i then 2 * 3 ^ (L - 1 - i) else 0)
          + (\<Sum>j = Suc i..<L. if g ! j = a ! j then 2 * 3 ^ (L - 1 - j) else 0)"
      using True by (rule sum.atLeast_Suc_lessThan)
    show ?thesis
    proof (cases "g ! i = a ! i")
      case eq: True
      let ?p = "pattern + 2 * 3 ^ (L - 1 - i)"
      let ?u = "used[i := True]"
      have ad: "add_digit pattern 2 (int L - 1 - int i) = Inr ?p" and p0: "0 \<le> ?p"
        and pb: "?p + 3 ^ (L - Suc i) \<le> 2 ^ 31"
        using add_digit_ok[OF True "1.prems"(5,6), of 2] by simp_all
      have as: "arr_set used i = Inr ?u"
        using True "1.prems"(3,4) by (simp add: arr_set_def)
      have unfold: "exact_pass g a (int L) i pattern used = exact_pass g a (int L) (Suc i) ?p ?u"
        using lt sg sa eq ad as by (subst exact_pass.simps) simp
      have lu: "length ?u = 10" using "1.prems"(4) by simp
      from "1.hyps"(1)[OF lt sg sa eq ad as "1.prems"(1,2,3) lu p0 pb]
      obtain pattern' used' where r: "exact_pass g a (int L) (Suc i) ?p ?u = Inr (pattern', used')"
        "length used' = 10" "0 \<le> pattern'"
        "pattern' = ?p + (\<Sum>j = Suc i..<L. if g ! j = a ! j then 2 * 3 ^ (L - 1 - j) else 0)"
        "\<forall>j<10. used' ! j = (?u ! j \<or> (Suc i \<le> j \<and> j < L \<and> g ! j = a ! j))"
        by blast
      have pat: "pattern' = pattern + (\<Sum>j = i..<L. if g ! j = a ! j then 2 * 3 ^ (L - 1 - j) else 0)"
        using r(4) split eq by simp
      have us: "\<forall>j<10. used' ! j = (used ! j \<or> (i \<le> j \<and> j < L \<and> g ! j = a ! j))"
      proof (intro allI impI)
        fix j :: nat assume j: "j < 10"
        show "used' ! j = (used ! j \<or> (i \<le> j \<and> j < L \<and> g ! j = a ! j))"
        proof (cases "j = i")
          case True
          then show ?thesis using r(5) j eq \<open>i < L\<close> "1.prems"(4) by simp
        next
          case False
          then show ?thesis using r(5) j by (auto simp: nth_list_update)
        qed
      qed
      show ?thesis using unfold r(1,2,3) pat us by simp
    next
      case ne: False
      have unfold: "exact_pass g a (int L) i pattern used = exact_pass g a (int L) (Suc i) pattern used"
        using lt sg sa ne by (subst exact_pass.simps) simp
      have pb: "pattern + 3 ^ (L - Suc i) \<le> 2 ^ 31"
      proof -
        have "(3::int) ^ (L - Suc i) \<le> 3 ^ (L - i)" by (rule power_increasing) simp_all
        then show ?thesis using "1.prems"(6) by linarith
      qed
      from "1.hyps"(2)[OF lt sg sa ne "1.prems"(1,2,3,4,5) pb]
      obtain pattern' used' where r: "exact_pass g a (int L) (Suc i) pattern used = Inr (pattern', used')"
        "length used' = 10" "0 \<le> pattern'"
        "pattern' = pattern + (\<Sum>j = Suc i..<L. if g ! j = a ! j then 2 * 3 ^ (L - 1 - j) else 0)"
        "\<forall>j<10. used' ! j = (used ! j \<or> (Suc i \<le> j \<and> j < L \<and> g ! j = a ! j))"
        by blast
      have pat: "pattern' = pattern + (\<Sum>j = i..<L. if g ! j = a ! j then 2 * 3 ^ (L - 1 - j) else 0)"
        using r(4) split ne by simp
      have us: "\<forall>j<10. used' ! j = (used ! j \<or> (i \<le> j \<and> j < L \<and> g ! j = a ! j))"
      proof (intro allI impI)
        fix j :: nat assume j: "j < 10"
        show "used' ! j = (used ! j \<or> (i \<le> j \<and> j < L \<and> g ! j = a ! j))"
          using r(5) j ne by (cases "j = i") auto
      qed
      show ?thesis using unfold r(1,2,3) pat us by simp
    qed
  qed
qed

lemma find_unused_ok:
  assumes "length a = L" "L \<le> 10" "length used = 10"
  shows "\<exists>r. find_unused c a (int L) j used = Inr r
           \<and> (case r of
                 None \<Rightarrow> (\<forall>k. j \<le> k \<and> k < L \<longrightarrow> used ! k \<or> a ! k \<noteq> c)
               | Some k \<Rightarrow> j \<le> k \<and> k < L \<and> \<not> used ! k \<and> a ! k = c)"
  using assms
proof (induction c a "int L" j used rule: find_unused.induct)
  case (1 c a j used)
  show ?case
  proof (cases "j < L")
    case False
    then have "find_unused c a (int L) j used = Inr None"
      by (subst find_unused.simps) simp
    then show ?thesis using False by auto
  next
    case True
    have lt: "int j < int L" using True by simp
    have au: "arr_at used j = Inr (used ! j)" using True "1.prems"(2,3) by (simp add: arr_at_def)
    have sa: "str_at a j = Inr (a ! j)" using True "1.prems"(1) by (simp add: str_at_def)
    show ?thesis
    proof (cases "\<not> used ! j \<and> a ! j = c")
      case True
      then have "find_unused c a (int L) j used = Inr (Some j)"
        using lt au sa by (subst find_unused.simps) simp
      then show ?thesis using True \<open>j < L\<close> by simp
    next
      case False
      have unfold: "find_unused c a (int L) j used = find_unused c a (int L) (Suc j) used"
        using lt au sa False by (subst find_unused.simps) auto
      have "\<exists>r. find_unused c a (int L) (Suc j) used = Inr r
           \<and> (case r of
                 None \<Rightarrow> (\<forall>k. Suc j \<le> k \<and> k < L \<longrightarrow> used ! k \<or> a ! k \<noteq> c)
               | Some k \<Rightarrow> Suc j \<le> k \<and> k < L \<and> \<not> used ! k \<and> a ! k = c)"
      proof (cases "used ! j")
        case u: True
        then have nu: "\<not> \<not> used ! j" by simp
        show ?thesis by (rule "1.hyps"(2)[OF lt au nu "1.prems"])
      next
        case u: False
        then have ne: "c \<noteq> a ! j" using False by auto
        show ?thesis by (rule "1.hyps"(1)[OF lt au u sa ne "1.prems"])
      qed
      then obtain r where r: "find_unused c a (int L) (Suc j) used = Inr r"
        "case r of
                 None \<Rightarrow> (\<forall>k. Suc j \<le> k \<and> k < L \<longrightarrow> used ! k \<or> a ! k \<noteq> c)
               | Some k \<Rightarrow> Suc j \<le> k \<and> k < L \<and> \<not> used ! k \<and> a ! k = c" by blast
      have "case r of
                 None \<Rightarrow> (\<forall>k. j \<le> k \<and> k < L \<longrightarrow> used ! k \<or> a ! k \<noteq> c)
               | Some k \<Rightarrow> j \<le> k \<and> k < L \<and> \<not> used ! k \<and> a ! k = c"
      proof (cases r)
        case None
        have "used ! k \<or> a ! k \<noteq> c" if "j \<le> k" "k < L" for k
        proof (cases "k = j")
          case True then show ?thesis using False by auto
        next
          case False then show ?thesis using r(2) None that by simp
        qed
        then show ?thesis using None by simp
      next
        case (Some k)
        then show ?thesis using r(2) by simp
      qed
      then show ?thesis using unfold r(1) by simp
    qed
  qed
qed

lemma avail_pos:
  "k < length a \<Longrightarrow> \<not> used ! k \<Longrightarrow> a ! k = c \<Longrightarrow> 0 < avail a used c"
proof -
  assume k: "k < length a" "\<not> used ! k" "a ! k = c"
  let ?f = "\<lambda>j. if \<not> used ! j \<and> a ! j = c then (1::int) else 0"
  have "?f k \<le> sum ?f {..<length a}"
    by (rule member_le_sum) (use k in simp_all)
  then show ?thesis using k by (simp add: avail_def)
qed

lemma avail_zero:
  "(\<forall>k. k < length a \<longrightarrow> used ! k \<or> a ! k \<noteq> c) \<Longrightarrow> avail a used c = 0"
  unfolding avail_def by (rule sum.neutral) auto

lemma avail_mark:
  assumes "k < length a" "k < length used" "\<not> used ! k"
  shows "avail a (used[k := True]) c = avail a used c - (if a ! k = c then 1 else 0)"
proof -
  let ?f = "\<lambda>j. if \<not> used ! j \<and> a ! j = c then (1::int) else 0"
  let ?f' = "\<lambda>j. if \<not> (used[k := True]) ! j \<and> a ! j = c then (1::int) else 0"
  have k: "k \<in> {..<length a}" using assms(1) by simp
  have 1: "sum ?f {..<length a} = ?f k + sum ?f ({..<length a} - {k})"
    by (rule sum.remove) (use k in simp_all)
  have 2: "sum ?f' {..<length a} = ?f' k + sum ?f' ({..<length a} - {k})"
    by (rule sum.remove) (use k in simp_all)
  have 3: "sum ?f' ({..<length a} - {k}) = sum ?f ({..<length a} - {k})"
    by (rule sum.cong) (simp_all add: nth_list_update)
  have 4: "?f' k = 0" using assms(2) by simp
  have 5: "?f k = (if a ! k = c then 1 else 0)" using assms(3) by simp
  show ?thesis unfolding avail_def using 1 2 3 4 5 by linarith
qed

lemma filter_length_sum:
  "int (length (filter P [0..<n])) = (\<Sum>j<n. if P j then 1 else 0)"
  by (induction n) simp_all

lemma avail_after_exact:
  assumes "length g = length a" "\<forall>j<length a. used ! j = (g ! j = a ! j)"
  shows "avail a used c = int (count_list a c) - int (ecount g a 0 c)"
proof -
  let ?n = "length a"
  have "int (count_list a c) = (\<Sum>j<?n. if a ! j = c then 1 else 0)"
    by (simp only: count_list_nth filter_length_sum)
  moreover have "int (ecount g a 0 c) = (\<Sum>j<?n. if g ! j = a ! j \<and> g ! j = c then 1 else 0)"
    by (simp only: ecount_def assms(1) filter_length_sum)
  moreover have "avail a used c = (\<Sum>j<?n. if g ! j \<noteq> a ! j \<and> a ! j = c then 1 else 0)"
    unfolding avail_def by (rule sum.cong) (use assms(2) in simp_all)
  moreover have "(\<Sum>j<?n. if a ! j = c then 1 else 0)
       - (\<Sum>j<?n. if g ! j = a ! j \<and> g ! j = c then 1 else 0)
       = (\<Sum>j<?n. if g ! j \<noteq> a ! j \<and> a ! j = c then (1::int) else 0)"
    unfolding sum_subtractf[symmetric] by (rule sum.cong) auto
  ultimately show ?thesis by linarith
qed

lemma yellow_pass_prefix:
  "yellow_pass g i res f = Inr res' \<Longrightarrow> j < i \<Longrightarrow> res' ! j = res ! j"
proof (induction g i res f rule: yellow_pass.induct)
  case (1 g i res f)
  show ?case
  proof (cases "i < length g")
    case False
    then have "yellow_pass g i res f = Inr res" by (subst yellow_pass.simps) simp
    then show ?thesis using "1.prems"(1) by simp
  next
    case True
    show ?thesis
    proof (cases "res ! i = CHR ''B''")
      case notB: False
      have "yellow_pass g i res f = yellow_pass g (Suc i) res f"
        using True notB by (subst yellow_pass.simps) simp
      then have "yellow_pass g (Suc i) res f = Inr res'" using "1.prems"(1) by simp
      from "1.IH"(3)[OF True notB this] "1.prems"(2) show ?thesis by simp
    next
      case isB: True
      show ?thesis
      proof (cases "vec_at f (freq_index (g ! i))")
        case (Inl e)
        then have "yellow_pass g i res f = Inl e"
          using True isB by (subst yellow_pass.simps) simp
        then show ?thesis using "1.prems"(1) by simp
      next
        case (Inr n)
        show ?thesis
        proof (cases "0 < n")
          case npos: False
          have "yellow_pass g i res f = yellow_pass g (Suc i) res f"
            using True isB Inr npos by (subst yellow_pass.simps) simp
          then have "yellow_pass g (Suc i) res f = Inr res'" using "1.prems"(1) by simp
          from "1.IH"(2)[OF True isB Inr npos this] "1.prems"(2) show ?thesis by simp
        next
          case pos: True
          show ?thesis
          proof (cases "vec_add f (freq_index (g ! i)) (- 1)")
            case (Inl e)
            then have "yellow_pass g i res f = Inl e"
              using True isB Inr pos by (subst yellow_pass.simps) simp
            then show ?thesis using "1.prems"(1) by simp
          next
            case add: (Inr f')
            have "yellow_pass g i res f = yellow_pass g (Suc i) (res[i := CHR ''Y'']) f'"
              using True isB Inr pos add by (subst yellow_pass.simps) simp
            then have "yellow_pass g (Suc i) (res[i := CHR ''Y'']) f' = Inr res'"
              using "1.prems"(1) by simp
            from "1.IH"(1)[OF True isB Inr pos add this] "1.prems"(2) show ?thesis by simp
          qed
        qed
      qed
    qed
  qed
qed

lemma wsum_step:
  "i < L \<Longrightarrow> (\<Sum>j = i..<L. if r ! j = CHR ''Y'' then 3 ^ (L - 1 - j) else (0::int))
     = (if r ! i = CHR ''Y'' then 3 ^ (L - 1 - i) else 0)
       + (\<Sum>j = Suc i..<L. if r ! j = CHR ''Y'' then 3 ^ (L - 1 - j) else 0)"
  by (rule sum.atLeast_Suc_lessThan)

lemma bound_step:
  assumes "(pattern::int) + 3 ^ (L - i) \<le> 2 ^ 31"
  shows "pattern + 3 ^ (L - Suc i) \<le> 2 ^ 31"
proof -
  have "(3::int) ^ (L - Suc i) \<le> 3 ^ (L - i)" by (rule power_increasing) simp_all
  then show ?thesis using assms by linarith
qed

lemma present_sim:
  assumes "length g = L" "length a = L" "L \<le> 10" "list_all is_upper g"
    "length used = 10" "length f = 26" "length res = L"
    "\<forall>c. is_upper c \<longrightarrow> cnt f c = avail a used c"
    "\<forall>j<L. i \<le> j \<longrightarrow> res ! j = (if g ! j = a ! j then CHR ''G'' else CHR ''B'')"
    "0 \<le> pattern" "pattern + 3 ^ (L - i) \<le> 2 ^ 31"
    "yellow_pass g i res f = Inr res'"
  shows "present_pass g a (int L) i pattern used
           = Inr (pattern + (\<Sum>j = i..<L. if res' ! j = CHR ''Y'' then 3 ^ (L - 1 - j) else 0))"
  using assms
proof (induction g i res f arbitrary: pattern used rule: yellow_pass.induct)
  case (1 g i res f)
  note len = "1.prems"(1,2,3)
  show ?case
  proof (cases "i < L")
    case False
    then have "present_pass g a (int L) i pattern used = Inr pattern"
      by (subst present_pass.simps) simp
    then show ?thesis using False by simp
  next
    case True
    then have ig: "i < length g" using len by simp
    have lt: "int i < int L" using True by simp
    have sg: "str_at g i = Inr (g ! i)" and sa: "str_at a i = Inr (a ! i)"
      using True len by (simp_all add: str_at_def)
    have up: "is_upper (g ! i)" using ig "1.prems"(4) by (simp add: list_all_length)
    have at: "vec_at f (freq_index (g ! i)) = Inr (cnt f (g ! i))"
      using up "1.prems"(6) by (rule vec_at_upper)
    have ri: "res ! i = (if g ! i = a ! i then CHR ''G'' else CHR ''B'')"
      using "1.prems"(9) True by simp
    have marks': "\<forall>j<L. Suc i \<le> j \<longrightarrow> res ! j = (if g ! j = a ! j then CHR ''G'' else CHR ''B'')"
      using "1.prems"(9) by simp
    have pb: "pattern + 3 ^ (L - Suc i) \<le> 2 ^ 31" using "1.prems"(11) by (rule bound_step)
    show ?thesis
    proof (cases "g ! i = a ! i")
      case eq: True
      then have notB: "res ! i \<noteq> CHR ''B''" using ri by simp
      have yu: "yellow_pass g i res f = yellow_pass g (Suc i) res f"
        using ig notB by (subst yellow_pass.simps) simp
      then have y': "yellow_pass g (Suc i) res f = Inr res'" using "1.prems"(12) by simp
      have pu: "present_pass g a (int L) i pattern used = present_pass g a (int L) (Suc i) pattern used"
        using lt sg sa eq by (subst present_pass.simps) simp
      have r'i: "res' ! i \<noteq> CHR ''Y''"
        using yellow_pass_prefix[OF y', of i] ri eq by simp
      from "1.IH"(3)[OF ig notB len "1.prems"(4,5,6,7,8) marks' "1.prems"(10) pb y']
      have "present_pass g a (int L) (Suc i) pattern used
           = Inr (pattern + (\<Sum>j = Suc i..<L. if res' ! j = CHR ''Y'' then 3 ^ (L - 1 - j) else 0))" .
      then show ?thesis using pu r'i by (simp add: wsum_step[OF True])
    next
      case ne: False
      then have isB: "res ! i = CHR ''B''" using ri by simp
      obtain r where r: "find_unused (g ! i) a (int L) 0 used = Inr r"
        "case r of
           None \<Rightarrow> (\<forall>k. 0 \<le> k \<and> k < L \<longrightarrow> used ! k \<or> a ! k \<noteq> g ! i)
         | Some k \<Rightarrow> 0 \<le> k \<and> k < L \<and> \<not> used ! k \<and> a ! k = g ! i"
        using find_unused_ok[OF len(2,3) "1.prems"(5), of "g ! i" 0] by blast
      show ?thesis
      proof (cases r)
        case None
        then have "\<forall>k. k < length a \<longrightarrow> used ! k \<or> a ! k \<noteq> g ! i" using r(2) len by simp
        then have "avail a used (g ! i) = 0" by (rule avail_zero)
        then have npos: "\<not> 0 < cnt f (g ! i)" using "1.prems"(8) up by simp
        have yu: "yellow_pass g i res f = yellow_pass g (Suc i) res f"
          using ig isB at npos by (subst yellow_pass.simps) simp
        then have y': "yellow_pass g (Suc i) res f = Inr res'" using "1.prems"(12) by simp
        have pu: "present_pass g a (int L) i pattern used = present_pass g a (int L) (Suc i) pattern used"
          using lt sg sa ne r(1) None by (subst present_pass.simps) simp
        have r'i: "res' ! i \<noteq> CHR ''Y''"
          using yellow_pass_prefix[OF y', of i] isB by simp
        from "1.IH"(2)[OF ig isB at npos len "1.prems"(4,5,6,7,8) marks' "1.prems"(10) pb y']
        have "present_pass g a (int L) (Suc i) pattern used
           = Inr (pattern + (\<Sum>j = Suc i..<L. if res' ! j = CHR ''Y'' then 3 ^ (L - 1 - j) else 0))" .
        then show ?thesis using pu r'i by (simp add: wsum_step[OF True])
      next
        case (Some k)
        then have k: "k < L" "\<not> used ! k" "a ! k = g ! i" using r(2) by simp_all
        have "0 < avail a used (g ! i)" using k len by (intro avail_pos[of k]) simp_all
        then have pos: "0 < cnt f (g ! i)" using "1.prems"(8) up by simp
        let ?f1 = "f[nat (freq_index (g ! i)) := cnt f (g ! i) + (- 1)]"
        let ?r1 = "res[i := CHR ''Y'']"
        let ?p1 = "pattern + 1 * 3 ^ (L - 1 - i)"
        let ?u1 = "used[k := True]"
        have add: "vec_add f (freq_index (g ! i)) (- 1) = Inr ?f1"
          using up "1.prems"(6) by (rule vec_add_upper)
        have yu: "yellow_pass g i res f = yellow_pass g (Suc i) ?r1 ?f1"
          using ig isB at pos add by (subst yellow_pass.simps) simp
        then have y': "yellow_pass g (Suc i) ?r1 ?f1 = Inr res'" using "1.prems"(12) by simp
        have ad: "add_digit pattern 1 (int L - 1 - int i) = Inr ?p1" and p0: "0 \<le> ?p1"
          and pb1: "?p1 + 3 ^ (L - Suc i) \<le> 2 ^ 31"
          using add_digit_ok[OF True "1.prems"(10,11), of 1] by simp_all
        have as: "arr_set used k = Inr ?u1"
          using k(1) len(3) "1.prems"(5) by (simp add: arr_set_def)
        have pu: "present_pass g a (int L) i pattern used = present_pass g a (int L) (Suc i) ?p1 ?u1"
          using lt sg sa ne r(1) Some ad as by (subst present_pass.simps) simp
        have r'i: "res' ! i = CHR ''Y''"
          using yellow_pass_prefix[OF y', of i] True "1.prems"(7) by simp
        have l1: "length ?u1 = 10" "length ?f1 = 26" "length ?r1 = L"
          using "1.prems"(5,6,7) by simp_all
        have R1: "\<forall>c. is_upper c \<longrightarrow> cnt ?f1 c = avail a ?u1 c"
        proof (intro allI impI)
          fix c assume c: "is_upper c"
          have "avail a ?u1 c = avail a used c - (if a ! k = c then 1 else 0)"
            using k len(2,3) "1.prems"(5) by (intro avail_mark) simp_all
          moreover have "cnt ?f1 c = (if c = g ! i then cnt f (g ! i) + (- 1) else cnt f c)"
            using up c "1.prems"(6) by (rule cnt_update)
          ultimately show "cnt ?f1 c = avail a ?u1 c"
            using "1.prems"(8) c up k(3) by auto
        qed
        have marks1: "\<forall>j<L. Suc i \<le> j \<longrightarrow> ?r1 ! j = (if g ! j = a ! j then CHR ''G'' else CHR ''B'')"
          using "1.prems"(9) by simp
        from "1.IH"(1)[OF ig isB at pos add len "1.prems"(4) l1 R1 marks1 p0 pb1 y']
        have "present_pass g a (int L) (Suc i) ?p1 ?u1
           = Inr (?p1 + (\<Sum>j = Suc i..<L. if res' ! j = CHR ''Y'' then 3 ^ (L - 1 - j) else 0))" .
        then show ?thesis using pu r'i by (simp add: wsum_step[OF True])
      qed
    qed
  qed
qed

lemma getPattern_stages:
  assumes g: "list_all is_upper g" and t: "list_all is_upper t" and len: "length g \<le> length t"
  shows "\<exists>f1 r1 r. getPattern g t = Inr r \<and> yellow_pass g 0 r1 f1 = Inr r
           \<and> length f1 = 26 \<and> length r1 = length g \<and> length r = length g
           \<and> (\<forall>j<length g. r1 ! j = (if g ! j = t ! j then CHR ''G'' else CHR ''B''))
           \<and> (\<forall>c. is_upper c \<longrightarrow> cnt f1 c = int (count_list t c) - int (ecount g t 0 c))
           \<and> (\<forall>j<length g. r ! j = CHR ''G'' \<longleftrightarrow> g ! j = t ! j)"
proof -
  obtain f0 where f0: "count_target t (replicate 26 0) = Inr f0" "length f0 = 26"
    "\<forall>c. is_upper c \<longrightarrow> cnt f0 c = cnt (replicate 26 0) c + int (count_list t c)"
    using count_target_ok[OF t, of "replicate 26 0"] by auto
  let ?r0 = "replicate (length g) (CHR ''B'')"
  obtain r1 f1 where p1: "green_pass g t 0 ?r0 f0 = Inr (r1, f1)" "length r1 = length g"
    "length f1 = 26"
    "\<forall>j<length g. r1 ! j = (if 0 \<le> j \<and> g ! j = t ! j then CHR ''G'' else ?r0 ! j)"
    "\<forall>c. is_upper c \<longrightarrow> cnt f1 c = cnt f0 c - int (ecount g t 0 c)"
    using green_pass_ok[OF g len f0(2), of ?r0 0] by auto
  have r1: "\<forall>j<length g. r1 ! j = (if g ! j = t ! j then CHR ''G'' else CHR ''B'')"
    using p1(4) by simp
  have noY: "\<forall>k<length g. 0 \<le> k \<longrightarrow> r1 ! k \<noteq> CHR ''Y''"
    using r1 by simp
  obtain r where p2: "yellow_pass g 0 r1 f1 = Inr r" "length r = length g"
    "\<forall>j<length g. r ! j =
        (if 0 \<le> j \<and> r1 ! j = CHR ''B'' \<and> cnt f1 (g ! j) - int (ycount g r 0 j (g ! j)) > 0
         then CHR ''Y'' else r1 ! j)"
    using yellow_pass_ok[OF g p1(3) p1(2) noY] by auto
  have f1: "\<forall>c. is_upper c \<longrightarrow> cnt f1 c = int (count_list t c) - int (ecount g t 0 c)"
    using p1(5) f0(3) by (simp add: cnt_replicate)
  have G: "\<forall>j<length g. r ! j = CHR ''G'' \<longleftrightarrow> g ! j = t ! j"
    using p2(3) r1 by simp
  have "getPattern g t = Inr r" using f0(1) p1(1) p2(1) by (simp add: getPattern_def)
  then show ?thesis using p2(1,2) p1(2,3) r1 f1 G by blast
qed

lemma base3_snoc: "base3 (r @ [x]) = 3 * base3 r + symbol_digit x"
  by (simp add: base3_def)

lemma base3_sum: "base3 r = (\<Sum>j<length r. symbol_digit (r ! j) * 3 ^ (length r - 1 - j))"
proof (induction r rule: rev_induct)
  case Nil
  then show ?case by (simp add: base3_def)
next
  case (snoc x r)
  let ?n = "length r"
  have "(\<Sum>j<Suc ?n. symbol_digit ((r @ [x]) ! j) * 3 ^ (Suc ?n - 1 - j))
      = (\<Sum>j<?n. symbol_digit ((r @ [x]) ! j) * 3 ^ (?n - j)) + symbol_digit x"
    by simp
  also have "(\<Sum>j<?n. symbol_digit ((r @ [x]) ! j) * 3 ^ (?n - j))
      = (\<Sum>j<?n. 3 * (symbol_digit (r ! j) * 3 ^ (?n - 1 - j)))"
  proof (rule sum.cong[OF refl])
    fix j assume "j \<in> {..<?n}"
    then have j: "j < ?n" by simp
    then have "?n - j = Suc (?n - 1 - j)" by linarith
    then have "(3::int) ^ (?n - j) = 3 * 3 ^ (?n - 1 - j)" by (simp only: power_Suc)
    then show "symbol_digit ((r @ [x]) ! j) * 3 ^ (?n - j) = 3 * (symbol_digit (r ! j) * 3 ^ (?n - 1 - j))"
      using j by (simp add: nth_append)
  qed
  also have "\<dots> = 3 * (\<Sum>j<?n. symbol_digit (r ! j) * 3 ^ (?n - 1 - j))"
    by (rule sum_distrib_left[symmetric])
  finally show ?case using snoc.IH by (simp add: base3_snoc)
qed

lemma exact_sum_bound:
  assumes "L \<le> 10"
  shows "(\<Sum>j = 0..<L. if (g::string) ! j = a ! j then 2 * 3 ^ (L - 1 - j) else (0::int)) \<le> 393660"
proof -
  have "(\<Sum>j = 0..<L. if g ! j = a ! j then 2 * 3 ^ (L - 1 - j) else (0::int))
          \<le> (\<Sum>j = 0..<L. 2 * 3 ^ 9)"
  proof (rule sum_mono)
    fix j assume "j \<in> {0..<L}"
    have "(3::int) ^ (L - 1 - j) \<le> 3 ^ 9" using assms by (intro power_increasing) simp_all
    then show "(if g ! j = a ! j then 2 * 3 ^ (L - 1 - j) else (0::int)) \<le> 2 * 3 ^ 9" by simp
  qed
  also have "\<dots> = int L * (2 * 3 ^ 9)" by simp
  also have "\<dots> \<le> 10 * (2 * 3 ^ 9)" using assms by simp
  finally show ?thesis by simp
qed


text \<open>
  C8. For two words of equal length, at most 10, over the letters A to Z, the integer
  that \<open>get_pattern\<close> returns is the symbol string of \<open>getPattern\<close> read in base 3,
  first position most significant, with G as 2, Y as 1 and B as 0.
\<close>

theorem encodings_agree:
  assumes len: "length guess = length answer" and L: "length guess \<le> 10"
    and g: "list_all is_upper guess" and a: "list_all is_upper answer"
  shows "\<exists>marks. getPattern guess answer = Inr marks
           \<and> get_pattern guess answer (int (length guess)) = Inr (base3 marks)"
proof -
  let ?L = "length guess"
  have la: "length answer = ?L" using len by simp
  obtain f1 r1 r where s: "getPattern guess answer = Inr r" "yellow_pass guess 0 r1 f1 = Inr r"
    "length f1 = 26" "length r1 = ?L" "length r = ?L"
    "\<forall>j<?L. r1 ! j = (if guess ! j = answer ! j then CHR ''G'' else CHR ''B'')"
    "\<forall>c. is_upper c \<longrightarrow> cnt f1 c = int (count_list answer c) - int (ecount guess answer 0 c)"
    "\<forall>j<?L. r ! j = CHR ''G'' \<longleftrightarrow> guess ! j = answer ! j"
    using getPattern_stages[OF g a] len by auto
  let ?E = "\<Sum>j = 0..<?L. if guess ! j = answer ! j then 2 * 3 ^ (?L - 1 - j) else (0::int)"
  let ?Y = "\<Sum>j = 0..<?L. if r ! j = CHR ''Y'' then 3 ^ (?L - 1 - j) else (0::int)"
  have p3: "(3::int) ^ ?L \<le> 3 ^ 10" using L by (intro power_increasing) simp_all
  have b0: "(0::int) + 3 ^ (?L - 0) \<le> 2 ^ 31" using p3 by simp
  obtain p1 u1 where e: "exact_pass guess answer (int ?L) 0 0 (replicate 10 False) = Inr (p1, u1)"
    "length u1 = 10" "0 \<le> p1" "p1 = 0 + ?E"
    "\<forall>j<10. u1 ! j = (replicate 10 False ! j \<or> (0 \<le> j \<and> j < ?L \<and> guess ! j = answer ! j))"
    using exact_pass_ok[OF refl la L _ _ b0, of "replicate 10 False"] by auto
  have u1: "\<forall>j<length answer. u1 ! j = (guess ! j = answer ! j)"
    using e(5) L la by simp
  have R: "\<forall>c. is_upper c \<longrightarrow> cnt f1 c = avail answer u1 c"
    using s(7) avail_after_exact[OF len u1] by simp
  have marks: "\<forall>j<?L. 0 \<le> j \<longrightarrow> r1 ! j = (if guess ! j = answer ! j then CHR ''G'' else CHR ''B'')"
    using s(6) by simp
  have b1: "p1 + 3 ^ (?L - 0) \<le> 2 ^ 31"
    using e(4) exact_sum_bound[OF L, of guess answer] p3 by simp
  have pp: "present_pass guess answer (int ?L) 0 p1 u1 = Inr (p1 + ?Y)"
    by (rule present_sim[OF refl la L g e(2) s(3,4) R marks e(3) b1 s(2)])
  have gp: "get_pattern guess answer (int ?L) = Inr (?E + ?Y)"
    using e(1,4) pp by (simp add: get_pattern_def)
  have "base3 r = (\<Sum>j<?L. symbol_digit (r ! j) * 3 ^ (?L - 1 - j))"
    using base3_sum[of r] s(5) by simp
  also have "\<dots> = (\<Sum>j = 0..<?L. symbol_digit (r ! j) * 3 ^ (?L - 1 - j))"
    by (simp only: lessThan_atLeast0)
  also have "\<dots> = (\<Sum>j = 0..<?L. (if guess ! j = answer ! j then 2 * 3 ^ (?L - 1 - j) else (0::int))
                          + (if r ! j = CHR ''Y'' then 3 ^ (?L - 1 - j) else 0))"
  proof (rule sum.cong[OF refl])
    fix j assume "j \<in> {0..<?L}"
    then have j: "j < ?L" by simp
    then have G: "r ! j = CHR ''G'' \<longleftrightarrow> guess ! j = answer ! j" using s(8) by simp
    show "symbol_digit (r ! j) * 3 ^ (?L - 1 - j)
        = (if guess ! j = answer ! j then 2 * 3 ^ (?L - 1 - j) else (0::int))
          + (if r ! j = CHR ''Y'' then 3 ^ (?L - 1 - j) else 0)"
      using G by (auto simp: symbol_digit_def)
  qed
  also have "\<dots> = ?E + ?Y" by (rule sum.distrib)
  finally have "base3 r = ?E + ?Y" .
  then show ?thesis using s(1) gp by simp
qed


theorem encodings_agree_witness:
  "get_pattern ''SPEED'' ''ERASE'' 5 = Inr 93
   \<and> (\<exists>marks. getPattern ''SPEED'' ''ERASE'' = Inr marks
           \<and> get_pattern ''SPEED'' ''ERASE'' (int (length ''SPEED'')) = Inr (base3 marks))"
proof -
  have h1: "length ''SPEED'' = length ''ERASE''" by simp
  have h2: "length ''SPEED'' \<le> 10" by simp
  have h3: "list_all is_upper ''SPEED''" by (simp add: is_upper_def char_code_def)
  have h4: "list_all is_upper ''ERASE''" by (simp add: is_upper_def char_code_def)
  have v: "get_pattern ''SPEED'' ''ERASE'' 5 = Inr 93" by code_simp
  from v encodings_agree [OF h1 h2 h3 h4] show ?thesis by (rule conjI)
qed

section \<open>The entropy of a guess\<close>

lemma pattern_incr_keys: "fst ` set (pattern_incr pc p) = insert p (fst ` set pc)"
  by (induction pc p rule: pattern_incr.induct) auto

lemma pattern_incr_distinct: "distinct (map fst pc) \<Longrightarrow> distinct (map fst (pattern_incr pc p))"
  by (induction pc p rule: pattern_incr.induct) (auto simp: pattern_incr_keys)

lemma pattern_incr_entries:
  "distinct (map fst pc) \<Longrightarrow> (q, m) \<in> set (pattern_incr pc p) \<Longrightarrow>
     (q \<noteq> p \<and> (q, m) \<in> set pc) \<or> (q = p \<and> (p, m - 1) \<in> set pc)
       \<or> (q = p \<and> m = 1 \<and> p \<notin> fst ` set pc)"
  by (induction pc p rule: pattern_incr.induct) (force split: if_splits)+

lemma counts_ok_incr: 
  assumes "counts_ok pc ps" shows "counts_ok (pattern_incr pc p) (ps @ [p])"
proof -
  have d: "distinct (map fst (pattern_incr pc p))"
    using assms by (simp add: counts_ok_def pattern_incr_distinct)
  have k: "set (map fst (pattern_incr pc p)) = set (ps @ [p])"
    using assms by (simp add: counts_ok_def pattern_incr_keys)
  have c: "\<forall>(q, m) \<in> set (pattern_incr pc p). m = int (count_list (ps @ [p]) q)"
  proof clarify
    fix q m assume "(q, m) \<in> set (pattern_incr pc p)"
    from pattern_incr_entries[OF _ this] assms
    consider "q \<noteq> p \<and> (q, m) \<in> set pc" | "q = p \<and> (p, m - 1) \<in> set pc"
      | "q = p \<and> m = 1 \<and> p \<notin> fst ` set pc" unfolding counts_ok_def by blast
    then show "m = int (count_list (ps @ [p]) q)"
    proof cases
      case 1 then show ?thesis using assms by (auto simp: counts_ok_def)
    next
      case 2 then show ?thesis using assms by (fastforce simp: counts_ok_def)
    next
      case 3
      then have "p \<notin> set ps" using assms by (simp add: counts_ok_def)
      then show ?thesis using 3 by (simp add: count_list_0_iff)
    qed
  qed
  show ?thesis using d k c unfolding counts_ok_def by blast
qed

lemma tally_ok:
  "map (getPattern g) as = map Inr ps \<Longrightarrow> counts_ok pc qs \<Longrightarrow>
     \<exists>pc'. tally g as pc = Inr pc' \<and> counts_ok pc' (qs @ ps)"
proof (induction as arbitrary: pc qs ps)
  case Nil
  then show ?case by simp
next
  case (Cons a as)
  then obtain p ps' where ps: "ps = p # ps'" "getPattern g a = Inr p"
    "map (getPattern g) as = map Inr ps'" by (cases ps) auto
  have "counts_ok (pattern_incr pc p) (qs @ [p])" using Cons.prems(2) by (rule counts_ok_incr)
  from Cons.IH[OF ps(3) this] show ?case using ps by simp
qed

lemma patterns_exist:
  "list_all is_upper g \<Longrightarrow> list_all (\<lambda>a. list_all is_upper a \<and> length a = length g) as \<Longrightarrow>
     \<exists>ps. map (getPattern g) as = map Inr ps"
proof (induction as)
  case Nil
  then show ?case by simp
next
  case (Cons a as)
  then obtain ps where ps: "map (getPattern g) as = map Inr ps" by auto
  obtain r where "getPattern g a = Inr r"
    using getPattern_succeeds[of g a] Cons.prems by auto
  then have "map (getPattern g) (a # as) = map Inr (r # ps)" using ps by simp
  then show ?case by blast
qed

lemma entropy_loop_sum:
  "entropy_loop exact_platform pc N e
     = e - sum_list (map (\<lambda>(p, n). (real_of_int n / N) * log 2 (real_of_int n / N)) pc)"
  by (induction pc arbitrary: e) (auto simp: exact_platform_def)

lemma walk_exact: "walk exact_platform pc = pc"
  by (simp add: exact_platform_def)

lemma entropy_loop_shannon:
  assumes "counts_ok pc ps"
  shows "entropy_loop exact_platform pc (real (length ps)) 0 = shannon ps"
proof -
  let ?\<psi> = "\<lambda>p. (real (count_list ps p) / real (length ps))
                   * log 2 (real (count_list ps p) / real (length ps))"
  have d: "distinct (map fst pc)" and k: "set (map fst pc) = set ps"
    and c: "\<And>p n. (p, n) \<in> set pc \<Longrightarrow> n = int (count_list ps p)"
    using assms unfolding counts_ok_def by auto
  have "(case x of (p, n) \<Rightarrow> (real_of_int n / real (length ps)) * log 2 (real_of_int n / real (length ps)))
          = ?\<psi> (fst x)" if "x \<in> set pc" for x
  proof -
    obtain p n where x: "x = (p, n)" by (cases x)
    then have "n = int (count_list ps p)" using c that by simp
    then show ?thesis by (simp add: x)
  qed
  then have "map (\<lambda>(p, n). (real_of_int n / real (length ps)) * log 2 (real_of_int n / real (length ps))) pc
        = map (\<lambda>x. ?\<psi> (fst x)) pc"
    by (intro map_cong refl)
  also have "\<dots> = map ?\<psi> (map fst pc)"
    by (simp only: map_map comp_def)
  finally have "entropy_loop exact_platform pc (real (length ps)) 0 = - sum_list (map ?\<psi> (map fst pc))"
    by (simp only: entropy_loop_sum diff_0)
  also have "sum_list (map ?\<psi> (map fst pc)) = sum ?\<psi> (set (map fst pc))"
    using d by (rule sum_list_distinct_conv_sum_set)
  finally show ?thesis using k by (simp add: shannon_def)
qed

lemma count_pos: "p \<in> set ps \<Longrightarrow> 1 \<le> count_list ps p"
  using count_list_0_iff[of ps p] by (cases "count_list ps p") auto

lemma count_le_length: "count_list ps p \<le> length ps"
  by (simp add: count_list_eq_length_filter)

lemma sum_counts: "(\<Sum>p \<in> set ps. count_list ps p) = length ps"
  by (rule sum_count_set) auto

lemma shannon_split:
  assumes "ps \<noteq> []"
  shows "shannon ps = log 2 (real (length ps))
           - (\<Sum>p \<in> set ps. real (count_list ps p) * log 2 (real (count_list ps p))) / real (length ps)"
proof -
  let ?N = "real (length ps)"
  have N: "0 < ?N" using assms by simp
  have t: "(real (count_list ps p) / ?N) * log 2 (real (count_list ps p) / ?N)
         = (real (count_list ps p) * log 2 (real (count_list ps p))) / ?N
             - (real (count_list ps p) / ?N) * log 2 ?N" if "p \<in> set ps" for p
  proof -
    have "0 < real (count_list ps p)" using count_pos[OF that] by simp
    then have "log 2 (real (count_list ps p) / ?N) = log 2 (real (count_list ps p)) - log 2 ?N"
      using N by (simp add: log_divide)
    then show ?thesis by (simp add: right_diff_distrib)
  qed
  let ?A = "\<lambda>p. real (count_list ps p) * log 2 (real (count_list ps p))"
  let ?B = "\<lambda>p. real (count_list ps p) / ?N"
  have "shannon ps = - (\<Sum>p \<in> set ps. ?A p / ?N - ?B p * log 2 ?N)"
    unfolding shannon_def using t by simp
  moreover have "(\<Sum>p \<in> set ps. ?A p / ?N - ?B p * log 2 ?N)
      = (\<Sum>p \<in> set ps. ?A p / ?N) - (\<Sum>p \<in> set ps. ?B p * log 2 ?N)"
    by (rule sum_subtractf)
  moreover have "(\<Sum>p \<in> set ps. ?A p / ?N) = (\<Sum>p \<in> set ps. ?A p) / ?N"
    by (rule sum_divide_distrib[symmetric])
  moreover have "(\<Sum>p \<in> set ps. ?B p * log 2 ?N) = (\<Sum>p \<in> set ps. ?B p) * log 2 ?N"
    by (rule sum_distrib_right[symmetric])
  moreover have "(\<Sum>p \<in> set ps. ?B p) = 1"
  proof -
    have "(\<Sum>p \<in> set ps. ?B p) = (\<Sum>p \<in> set ps. real (count_list ps p)) / ?N"
      by (rule sum_divide_distrib[symmetric])
    also have "(\<Sum>p \<in> set ps. real (count_list ps p)) = real (\<Sum>p \<in> set ps. count_list ps p)"
      by simp
    finally show ?thesis using N by (simp only: sum_counts) simp
  qed
  ultimately show ?thesis by simp
qed

lemma clogc_nonneg: "0 \<le> real c * log 2 (real c)"
  by (cases "c = 0") (simp_all add: zero_le_log_cancel_iff)

lemma clogc_zero_iff: "1 \<le> c \<Longrightarrow> real c * log 2 (real c) = 0 \<longleftrightarrow> c = 1"
proof (cases "c = 1")
  case True
  then show ?thesis by simp
next
  case False
  assume "1 \<le> c"
  with False have c: "1 < real c" by simp
  then have "0 < log 2 (real c)" by (simp add: zero_less_log_cancel_iff)
  then have "0 < real c * log 2 (real c)" using c by simp
  then have "real c * log 2 (real c) \<noteq> 0" by linarith
  with False show ?thesis by blast
qed

lemma shannon_le_log: "ps \<noteq> [] \<Longrightarrow> shannon ps \<le> log 2 (real (length ps))"
proof -
  assume ne: "ps \<noteq> []"
  have "0 \<le> (\<Sum>p \<in> set ps. real (count_list ps p) * log 2 (real (count_list ps p)))"
    by (rule sum_nonneg) (rule clogc_nonneg)
  then have "0 \<le> (\<Sum>p \<in> set ps. real (count_list ps p) * log 2 (real (count_list ps p))) / real (length ps)"
    by simp
  then show ?thesis using shannon_split[OF ne] by linarith
qed

lemma distinct_iff_counts: "distinct ps \<longleftrightarrow> (\<forall>p \<in> set ps. count_list ps p = 1)"
proof -
  have "distinct ps \<longleftrightarrow> (\<forall>a. count_list ps a = (if a \<in> set ps then 1 else 0))"
    by (simp only: distinct_count_atmost_1 count_mset)
  also have "\<dots> \<longleftrightarrow> (\<forall>p \<in> set ps. count_list ps p = 1)"
    using count_list_0_iff[of ps] by auto
  finally show ?thesis .
qed

lemma shannon_eq_log_iff:
  assumes ne: "ps \<noteq> []"
  shows "shannon ps = log 2 (real (length ps)) \<longleftrightarrow> distinct ps"
proof -
  let ?T = "\<Sum>p \<in> set ps. real (count_list ps p) * log 2 (real (count_list ps p))"
  have "shannon ps = log 2 (real (length ps)) \<longleftrightarrow> ?T = 0"
    using shannon_split[OF ne] ne by auto
  also have "\<dots> \<longleftrightarrow> (\<forall>p \<in> set ps. real (count_list ps p) * log 2 (real (count_list ps p)) = 0)"
    by (rule sum_nonneg_eq_0_iff) (simp_all add: clogc_nonneg)
  also have "\<dots> \<longleftrightarrow> (\<forall>p \<in> set ps. count_list ps p = 1)"
  proof (rule ball_cong[OF refl])
    fix p assume "p \<in> set ps"
    then show "(real (count_list ps p) * log 2 (real (count_list ps p)) = 0) = (count_list ps p = 1)"
      by (rule clogc_zero_iff[OF count_pos])
  qed
  finally show ?thesis by (simp add: distinct_iff_counts)
qed

lemma xlogx_nonpos: "0 < x \<Longrightarrow> x \<le> 1 \<Longrightarrow> x * log 2 x \<le> 0"
proof -
  assume x: "0 < x" "x \<le> 1"
  then have "log 2 x \<le> 0" by (simp add: log_le_zero_cancel_iff)
  then show ?thesis using x(1) by (simp add: mult_nonneg_nonpos)
qed

lemma xlogx_zero_iff: "0 < (x::real) \<Longrightarrow> x * log 2 x = 0 \<longleftrightarrow> x = 1"
proof
  assume x: "0 < x" and z: "x * log 2 x = 0"
  then have l: "log 2 x = 0" by simp
  have "x \<le> 1" using l x log_le_zero_cancel_iff[of 2 x] by simp
  moreover have "1 \<le> x" using l x zero_le_log_cancel_iff[of 2 x] by simp
  ultimately show "x = 1" by simp
next
  assume "x = 1" then show "x * log 2 x = 0" by simp
qed

lemma ratio_bounds:
  assumes "p \<in> set ps"
  shows "0 < real (count_list ps p) / real (length ps)" "real (count_list ps p) / real (length ps) \<le> 1"
proof -
  have c: "1 \<le> count_list ps p" using assms by (rule count_pos)
  have l: "count_list ps p \<le> length ps" by (rule count_le_length)
  from c l have "0 < length ps" by linarith
  then show "0 < real (count_list ps p) / real (length ps)" using c by simp
  show "real (count_list ps p) / real (length ps) \<le> 1" using l \<open>0 < length ps\<close> by simp
qed

lemma shannon_nonneg: "0 \<le> shannon ps"
proof -
  have "(\<Sum>p \<in> set ps. (real (count_list ps p) / real (length ps))
                        * log 2 (real (count_list ps p) / real (length ps))) \<le> 0"
    by (rule sum_nonpos) (simp only: xlogx_nonpos ratio_bounds)
  then show ?thesis by (simp add: shannon_def)
qed

lemma count_full: "count_list ps p = length ps \<longleftrightarrow> (\<forall>x \<in> set ps. x = p)"
proof (induction ps)
  case Nil
  then show ?case by simp
next
  case (Cons a ps)
  have "count_list ps p \<le> length ps" by (rule count_le_length)
  then show ?case using Cons.IH by auto
qed

lemma all_same_iff:
  assumes "ps \<noteq> []"
  shows "(\<forall>p \<in> set ps. count_list ps p = length ps) \<longleftrightarrow> card (set ps) = 1"
proof
  assume a: "\<forall>p \<in> set ps. count_list ps p = length ps"
  obtain q where q: "q \<in> set ps" using assms by (cases ps) auto
  have "count_list ps q = length ps" using a q by (rule bspec)
  then have "\<forall>x \<in> set ps. x = q" by (simp only: count_full)
  then have "set ps = {q}" using q by blast
  then show "card (set ps) = 1" by simp
next
  assume "card (set ps) = 1"
  then obtain q where s: "set ps = {q}" by (rule card_1_singletonE)
  have "\<forall>x \<in> set ps. x = q" using s by simp
  then have "count_list ps q = length ps" by (simp only: count_full)
  then show "\<forall>p \<in> set ps. count_list ps p = length ps" using s by simp
qed

lemma shannon_eq_0_iff:
  assumes ne: "ps \<noteq> []"
  shows "shannon ps = 0 \<longleftrightarrow> card (set ps) = 1"
proof -
  let ?r = "\<lambda>p. real (count_list ps p) / real (length ps)"
  have "shannon ps = 0 \<longleftrightarrow> (\<Sum>p \<in> set ps. - (?r p * log 2 (?r p))) = 0"
    by (simp add: shannon_def sum_negf)
  also have "\<dots> \<longleftrightarrow> (\<forall>p \<in> set ps. - (?r p * log 2 (?r p)) = 0)"
  proof (rule sum_nonneg_eq_0_iff)
    show "finite (set ps)" by simp
    fix p assume "p \<in> set ps"
    then have "?r p * log 2 (?r p) \<le> 0" by (simp only: xlogx_nonpos ratio_bounds)
    then show "0 \<le> - (?r p * log 2 (?r p))" by simp
  qed
  also have "\<dots> \<longleftrightarrow> (\<forall>p \<in> set ps. count_list ps p = length ps)"
  proof (rule ball_cong[OF refl])
    fix p assume p: "p \<in> set ps"
    have "(- (?r p * log 2 (?r p)) = 0) = (?r p = 1)"
      using xlogx_zero_iff[OF ratio_bounds(1)[OF p]] by simp
    also have "\<dots> = (count_list ps p = length ps)" using ne by auto
    finally show "(- (?r p * log 2 (?r p)) = 0) = (count_list ps p = length ps)" .
  qed
  finally show ?thesis by (simp only: all_same_iff[OF ne])
qed

lemma counts_ok_empty: "counts_ok [] []"
  by (simp add: counts_ok_def)


lemma exact_platform_contract: "platform_contract exact_platform"
proof -
  have t: "real_of_int m / real n * log 2 (real_of_int m / real n) < 0"
    if "0 < m" "m < int n" for m :: int and n :: nat
  proof -
    have n: "0 < real n" using that by linarith
    have m: "0 < real_of_int m" using that by simp
    have lt: "real_of_int m < real n" using that by linarith
    have p0: "0 < real_of_int m / real n" using m n by simp
    have p1: "real_of_int m / real n < 1" using lt n by simp
    have "log 2 (real_of_int m / real n) < 0" using p0 p1 by (simp add: log_less_zero_cancel_iff)
    with p0 show ?thesis by (rule mult_pos_neg)
  qed
  show ?thesis unfolding platform_contract_def exact_platform_def using t by simp
qed

lemma counts_single:
  assumes ok: "counts_ok pc ps" and one: "card (set ps) = 1"
  shows "\<exists>p. pc = [(p, int (length ps))]"
proof -
  obtain q where q: "set ps = {q}" using one by (rule card_1_singletonE)
  have d: "distinct (map fst pc)" and k: "set (map fst pc) = {q}"
    and c: "\<And>p n. (p, n) \<in> set pc \<Longrightarrow> n = int (count_list ps p)"
    using ok q unfolding counts_ok_def by auto
  have "length (map fst pc) = card (set (map fst pc))" using d by (rule distinct_card[symmetric])
  then have "length pc = 1" using k by simp
  then obtain x where x: "pc = [x]" by (cases pc) auto
  obtain p n where pn: "x = (p, n)" by (cases x)
  have "p = q" using k x pn by simp
  moreover have "n = int (count_list ps p)" using c[of p n] x pn by simp
  moreover have "count_list ps q = length ps" using q by (simp add: count_full)
  ultimately show ?thesis using x pn by simp
qed

lemma counts_many:
  assumes ok: "counts_ok pc ps" and ne: "ps \<noteq> []" and many: "card (set ps) \<noteq> 1"
  shows "pc \<noteq> []" and "\<forall>x \<in> set pc. 0 < snd x \<and> snd x < int (length ps)"
proof -
  have k: "set (map fst pc) = set ps"
    and c: "\<And>p n. (p, n) \<in> set pc \<Longrightarrow> n = int (count_list ps p)"
    using ok unfolding counts_ok_def by auto
  show "pc \<noteq> []" using k ne by auto
  show "\<forall>x \<in> set pc. 0 < snd x \<and> snd x < int (length ps)"
  proof
    fix x assume x: "x \<in> set pc"
    obtain p n where pn: "x = (p, n)" by (cases x)
    have n: "n = int (count_list ps p)" using c x pn by simp
    have "p \<in> set (map fst pc)" using x pn by force
    then have p: "p \<in> set ps" using k by simp
    have pos: "1 \<le> count_list ps p" using p by (rule count_pos)
    have le: "count_list ps p \<le> length ps" by (rule count_le_length)
    have "count_list ps p \<noteq> length ps"
    proof
      assume "count_list ps p = length ps"
      then have "\<forall>y \<in> set ps. y = p" by (simp only: count_full)
      then have "set ps = {p}" using p by blast
      then show False using many by simp
    qed
    then show "0 < snd x \<and> snd x < int (length ps)" using pos le n pn by simp
  qed
qed

lemma entropy_loop_pos:
  assumes pf: "platform_contract pf" and N: "N < 2 ^ 31"
  shows "0 < e \<Longrightarrow> \<forall>x \<in> set pc. 0 < snd x \<and> snd x < int N \<Longrightarrow>
           0 < entropy_loop pf pc (real N) e"
proof (induction pc arbitrary: e)
  case Nil
  then show ?case by simp
next
  case (Cons x pc)
  obtain p n where pn: "x = (p, n)" by (cases x)
  have n: "0 < n" "n < int N" using Cons.prems(2) pn by simp_all
  let ?q = "fdiv pf (real_of_int n) (real N)"
  have t: "fmul pf ?q (flog2 pf ?q) < 0"
    using pf n N unfolding platform_contract_def by blast
  have "0 < fsub pf e (fmul pf ?q (flog2 pf ?q))"
    using pf t Cons.prems(1) unfolding platform_contract_def by simp
  moreover have "\<forall>x \<in> set pc. 0 < snd x \<and> snd x < int N" using Cons.prems(2) by simp
  ultimately have "0 < entropy_loop pf pc (real N) (fsub pf e (fmul pf ?q (flog2 pf ?q)))"
    by (rule Cons.IH)
  then show ?case by (simp add: pn Let_def)
qed

lemma entropy_loop_many:
  assumes pf: "platform_contract pf" and N: "N < 2 ^ 31" and ne: "pc \<noteq> []"
    and all: "\<forall>x \<in> set pc. 0 < snd x \<and> snd x < int N"
  shows "0 < entropy_loop pf pc (real N) 0"
proof -
  obtain x rest where pc: "pc = x # rest" using ne by (cases pc) auto
  obtain p n where pn: "x = (p, n)" by (cases x)
  have n: "0 < n" "n < int N" using all pc pn by simp_all
  let ?q = "fdiv pf (real_of_int n) (real N)"
  have t: "fmul pf ?q (flog2 pf ?q) < 0"
    using pf n N unfolding platform_contract_def by blast
  have e: "0 < fsub pf 0 (fmul pf ?q (flog2 pf ?q))"
    using pf t unfolding platform_contract_def by simp
  have "\<forall>x \<in> set rest. 0 < snd x \<and> snd x < int N" using all pc by simp
  with e have "0 < entropy_loop pf rest (real N) (fsub pf 0 (fmul pf ?q (flog2 pf ?q)))"
    by (rule entropy_loop_pos[OF pf N])
  then show ?thesis by (simp add: pc pn Let_def)
qed

lemma entropy_loop_single:
  assumes pf: "platform_contract pf" and N: "0 < N"
  shows "entropy_loop pf [(p, int N)] (real N) 0 = 0"
proof -
  have "real N \<noteq> 0" using N by simp
  then have d: "fdiv pf (real N) (real N) = 1" using pf unfolding platform_contract_def by blast
  have l: "flog2 pf 1 = 0" and m: "fmul pf 1 0 = 0" and s: "fsub pf 0 0 = 0"
    using pf unfolding platform_contract_def by simp_all
  show ?thesis by (simp add: Let_def d l m s)
qed

text \<open>
  C2, as the code has it. On a platform that meets the contract, for a guess and fewer
  than \<open>2^31\<close> candidates that are words of one length over the letters (the guess in
  either case), the entropy is computed and is not negative. It is 0 exactly when there
  is at most one candidate or all candidates induce one and the same pattern; otherwise
  it is positive. With more than one candidate the loop evaluates, in \<open>double\<close>
  arithmetic, minus the sum over the distinct patterns of \<open>count / N\<close> times its
  logarithm to base 2: without rounding it returns exactly that sum, which is at most
  \<open>log2 N\<close> and is \<open>log2 N\<close> only when every candidate induces a distinct pattern.
  Nothing is said of how far the rounded result lies from that sum.
\<close>

theorem calculateEntropy_bounds:
  assumes pf: "platform_contract pf"
    and g: "list_all is_upper (map toupper guessWord)"
    and a: "list_all (\<lambda>a. list_all is_upper a \<and> length a = length guessWord) (possibleAnswers calc)"
    and n: "length (possibleAnswers calc) < 2 ^ 31"
  shows "\<exists>h ps. calculateEntropy pf calc guessWord = Inr h
           \<and> map (getPattern (map toupper guessWord)) (possibleAnswers calc) = map Inr ps
           \<and> 0 \<le> h
           \<and> (h = 0 \<longleftrightarrow> length (possibleAnswers calc) \<le> 1 \<or> card (set ps) = 1)
           \<and> (1 < length (possibleAnswers calc) \<longrightarrow>
                calculateEntropy exact_platform calc guessWord = Inr (shannon ps)
                \<and> shannon ps \<le> log 2 (real (length (possibleAnswers calc)))
                \<and> (shannon ps = log 2 (real (length (possibleAnswers calc))) \<longrightarrow> distinct ps))"
proof -
  let ?g = "map toupper guessWord"
  let ?N = "length (possibleAnswers calc)"
  have a': "list_all (\<lambda>a. list_all is_upper a \<and> length a = length ?g) (possibleAnswers calc)"
    using a by simp
  obtain ps where ps: "map (getPattern ?g) (possibleAnswers calc) = map Inr ps"
    using patterns_exist[OF g a'] by blast
  have len: "length ps = ?N"
    using arg_cong[OF ps, of length] by simp
  obtain pc where pc: "tally ?g (possibleAnswers calc) [] = Inr pc" "counts_ok pc ([] @ ps)"
    using tally_ok[OF ps counts_ok_empty] by blast
  have ok: "counts_ok pc ps" using pc(2) by simp
  show ?thesis
  proof (cases "?N \<le> 1")
    case True
    then have h: "calculateEntropy pf calc guessWord = Inr 0" by (simp add: calculateEntropy_def)
    have "calculateEntropy pf calc guessWord = Inr 0
           \<and> map (getPattern ?g) (possibleAnswers calc) = map Inr ps
           \<and> 0 \<le> (0::real)
           \<and> ((0::real) = 0 \<longleftrightarrow> ?N \<le> 1 \<or> card (set ps) = 1)
           \<and> (1 < ?N \<longrightarrow>
                calculateEntropy exact_platform calc guessWord = Inr (shannon ps)
                \<and> shannon ps \<le> log 2 (real ?N)
                \<and> (shannon ps = log 2 (real ?N) \<longrightarrow> distinct ps))"
      using h ps True by simp
    then show ?thesis by blast
  next
    case False
    then have ne: "ps \<noteq> []" and N0: "0 < length ps" using len by auto
    have N31: "length ps < 2 ^ 31" using n len by simp
    have run: "calculateEntropy pf' calc guessWord
                 = Inr (entropy_loop pf' (walk pf' pc) (real (length ps)) 0)"
      for pf'
      using False pc(1) len by (simp add: calculateEntropy_def)
    let ?h = "entropy_loop pf (walk pf pc) (real (length ps)) 0"
    have w: "mset (walk pf pc) = mset pc" using pf unfolding platform_contract_def by blast
    have ex: "calculateEntropy exact_platform calc guessWord = Inr (shannon ps)"
      using run[of exact_platform] by (simp only: walk_exact entropy_loop_shannon[OF ok])
    have zero: "?h = 0" if c1: "card (set ps) = 1"
    proof -
      obtain p where "pc = [(p, int (length ps))]" using counts_single[OF ok c1] by blast
      then have "walk pf pc = [(p, int (length ps))]" using w by simp
      then show ?thesis using entropy_loop_single[OF pf N0] by simp
    qed
    have pos: "0 < ?h" if c2: "card (set ps) \<noteq> 1"
    proof -
      have s: "set (walk pf pc) = set pc" using w by (rule mset_eq_setD)
      have "pc \<noteq> []" by (rule counts_many(1)[OF ok ne c2])
      then have "walk pf pc \<noteq> []" using s by auto
      moreover have "\<forall>x \<in> set (walk pf pc). 0 < snd x \<and> snd x < int (length ps)"
        using counts_many(2)[OF ok ne c2] s by simp
      ultimately show ?thesis by (rule entropy_loop_many[OF pf N31])
    qed
    have b0: "0 \<le> ?h" using zero pos by (cases "card (set ps) = 1") auto
    have b1: "?h = 0 \<longleftrightarrow> ?N \<le> 1 \<or> card (set ps) = 1"
      using zero pos False by (cases "card (set ps) = 1") auto
    have b2: "shannon ps \<le> log 2 (real ?N)" using shannon_le_log[OF ne] by (simp only: len)
    have b3: "shannon ps = log 2 (real ?N) \<longrightarrow> distinct ps"
      using shannon_eq_log_iff[OF ne] by (simp only: len) simp
    have "calculateEntropy pf calc guessWord = Inr ?h
           \<and> map (getPattern ?g) (possibleAnswers calc) = map Inr ps
           \<and> 0 \<le> ?h
           \<and> (?h = 0 \<longleftrightarrow> ?N \<le> 1 \<or> card (set ps) = 1)
           \<and> (1 < ?N \<longrightarrow>
                calculateEntropy exact_platform calc guessWord = Inr (shannon ps)
                \<and> shannon ps \<le> log 2 (real ?N)
                \<and> (shannon ps = log 2 (real ?N) \<longrightarrow> distinct ps))"
      using run[of pf] ps b0 b1 ex b2 b3 by blast
    then show ?thesis by blast
  qed
qed

theorem calculateEntropy_bounds_witness:
  "\<exists>h ps. calculateEntropy exact_platform \<lparr>allWords = [], possibleAnswers = [''CRANE'', ''SLATE'', ''TRACE'']\<rparr> ''crane'' = Inr h
           \<and> map (getPattern (map toupper ''crane'')) (possibleAnswers \<lparr>allWords = [], possibleAnswers = [''CRANE'', ''SLATE'', ''TRACE'']\<rparr>) = map Inr ps
           \<and> 0 \<le> h
           \<and> (h = 0 \<longleftrightarrow> length (possibleAnswers \<lparr>allWords = [], possibleAnswers = [''CRANE'', ''SLATE'', ''TRACE'']\<rparr>) \<le> 1 \<or> card (set ps) = 1)
           \<and> (1 < length (possibleAnswers \<lparr>allWords = [], possibleAnswers = [''CRANE'', ''SLATE'', ''TRACE'']\<rparr>) \<longrightarrow>
                calculateEntropy exact_platform \<lparr>allWords = [], possibleAnswers = [''CRANE'', ''SLATE'', ''TRACE'']\<rparr> ''crane'' = Inr (shannon ps)
                \<and> shannon ps \<le> log 2 (real (length (possibleAnswers \<lparr>allWords = [], possibleAnswers = [''CRANE'', ''SLATE'', ''TRACE'']\<rparr>)))
                \<and> (shannon ps = log 2 (real (length (possibleAnswers \<lparr>allWords = [], possibleAnswers = [''CRANE'', ''SLATE'', ''TRACE'']\<rparr>))) \<longrightarrow> distinct ps))"
proof -
  have g: "list_all is_upper (map toupper ''crane'')"
    by (simp add: is_upper_def toupper_def char_code_def)
  have a: "list_all (\<lambda>a. list_all is_upper a \<and> length a = length ''crane'')
             (possibleAnswers \<lparr>allWords = [], possibleAnswers = [''CRANE'', ''SLATE'', ''TRACE'']\<rparr>)"
    by (simp add: is_upper_def char_code_def)
  have n: "length (possibleAnswers \<lparr>allWords = [], possibleAnswers = [''CRANE'', ''SLATE'', ''TRACE'']\<rparr>) < 2 ^ 31"
    by simp
  show ?thesis by (rule calculateEntropy_bounds [OF exact_platform_contract g a n])
qed


text \<open>
  C2 as stated fails: two candidates that induce the same pattern give the entropy 0,
  though there is more than one candidate. The operations on the way (2 divided by 2,
  \<open>log2(1)\<close>, 1 times 0, 0 minus 0) are exact in \<open>double\<close> arithmetic, and the theorem
  above gives the same result on every platform that meets the contract.
\<close>

theorem calculateEntropy_zero_counterexample:
  "platform_contract exact_platform
   \<and> calculateEntropy exact_platform \<lparr>allWords = [], possibleAnswers = [''AB'', ''AC'']\<rparr> ''XY'' = Inr 0
   \<and> \<not> length (possibleAnswers \<lparr>allWords = [], possibleAnswers = [''AB'', ''AC'']\<rparr>) \<le> 1"
proof -
  have u: "toupper CHR ''X'' = CHR ''X''" "toupper CHR ''Y'' = CHR ''Y''"
    by (simp_all add: toupper_def char_code_def)
  have p1: "getPattern ''XY'' ''AB'' = Inr ''BB''" by code_simp
  have p2: "getPattern ''XY'' ''AC'' = Inr ''BB''" by code_simp
  have "calculateEntropy exact_platform \<lparr>allWords = [], possibleAnswers = [''AB'', ''AC'']\<rparr> ''XY'' = Inr 0"
    by (simp add: calculateEntropy_def u p1 p2 exact_platform_def)
  then show ?thesis using exact_platform_contract by simp
qed

section \<open>The ranking\<close>

lemma calculateEntropy_succeeds:
  assumes g: "list_all is_upper (map toupper guessWord)"
    and a: "list_all (\<lambda>a. list_all is_upper a \<and> length a = length guessWord) (possibleAnswers calc)"
  shows "\<exists>h. calculateEntropy pf calc guessWord = Inr h"
proof -
  let ?g = "map toupper guessWord"
  have a': "list_all (\<lambda>a. list_all is_upper a \<and> length a = length ?g) (possibleAnswers calc)"
    using a by simp
  obtain ps where ps: "map (getPattern ?g) (possibleAnswers calc) = map Inr ps"
    using patterns_exist[OF g a'] by blast
  obtain pc where pc: "tally ?g (possibleAnswers calc) [] = Inr pc"
    using tally_ok[OF ps counts_ok_empty] by blast
  then show ?thesis by (simp add: calculateEntropy_def)
qed

lemma entropy_pairs_ok:
  "(\<And>w. w \<in> set ws \<Longrightarrow> \<exists>h. calculateEntropy pf calc w = Inr h) \<Longrightarrow>
     \<exists>ps. entropy_pairs pf calc ws acc = Inr (acc @ ps) \<and> map snd ps = ws
          \<and> (\<forall>x \<in> set ps. calculateEntropy pf calc (snd x) = Inr (fst x))"
proof (induction ws arbitrary: acc)
  case Nil
  then show ?case by simp
next
  case (Cons w ws)
  obtain h where h: "calculateEntropy pf calc w = Inr h" using Cons.prems by auto
  have "\<And>v. v \<in> set ws \<Longrightarrow> \<exists>h. calculateEntropy pf calc v = Inr h" using Cons.prems by simp
  from Cons.IH[OF this, of "acc @ [(h, w)]"]
  obtain ps where ps: "entropy_pairs pf calc ws (acc @ [(h, w)]) = Inr ((acc @ [(h, w)]) @ ps)"
    "map snd ps = ws" "\<forall>x \<in> set ps. calculateEntropy pf calc (snd x) = Inr (fst x)" by blast
  have "entropy_pairs pf calc (w # ws) acc = Inr (acc @ ((h, w) # ps))
      \<and> map snd ((h, w) # ps) = w # ws
      \<and> (\<forall>x \<in> set ((h, w) # ps). calculateEntropy pf calc (snd x) = Inr (fst x))"
    using h ps by simp
  then show ?case by (rule exI[of _ "(h, w) # ps"])
qed

lemma set_insert_desc: "set (insert_desc a bs) = insert a (set bs)"
  by (induction bs) auto

lemma mset_insert_desc: "mset (insert_desc a bs) = add_mset a (mset bs)"
  by (induction bs) auto

lemma sorted_insert_desc:
  "sorted_wrt (\<lambda>a b. \<not> entropy_greater b a) bs \<Longrightarrow>
     sorted_wrt (\<lambda>a b. \<not> entropy_greater b a) (insert_desc a bs)"
  by (induction bs) (auto simp: set_insert_desc entropy_greater_def)

lemma insertion_sort_desc_contract: "std_sort_contract insertion_sort_desc"
proof -
  have "mset (insertion_sort_desc xs) = mset xs" for xs
    by (induction xs) (simp_all add: mset_insert_desc)
  moreover have "sorted_wrt (\<lambda>a b. \<not> entropy_greater b a) (insertion_sort_desc xs)" for xs
    by (induction xs) (simp_all add: sorted_insert_desc)
  ultimately show ?thesis by (simp add: std_sort_contract_def)
qed


text \<open>
  C4, as the code has it. On every platform, with \<open>std::sort\<close> any sort that meets
  the standard's contract, a candidate set that is not empty, and words of one length over the letters:
  the ranking has one result for each dictionary word, each with the entropy of its word,
  and the entropies do not increase through the sequence. For an empty candidate set
  the ranking is empty. Nothing is said of the order among equal entropies: the
  comparator looks at the entropy alone.
\<close>

theorem calculateAllEntropies_ranking:
  assumes srt: "std_sort_contract std_sort"
    and ne: "possibleAnswers calc \<noteq> []"
    and wf: "list_all (\<lambda>w. list_all is_upper (map toupper w)
               \<and> list_all (\<lambda>a. list_all is_upper a \<and> length a = length w) (possibleAnswers calc))
             (allWords calc)"
  shows "(\<exists>results. calculateAllEntropies pf std_sort calc = Inr results
               \<and> length results = length (allWords calc)
               \<and> mset (map word results) = mset (allWords calc)
               \<and> (\<forall>r \<in> set results. calculateEntropy pf calc (word r) = Inr (entropy r))
               \<and> sorted_wrt (\<lambda>a b. entropy a \<ge> entropy b) results)
       \<and> calculateAllEntropies pf std_sort (calc\<lparr>possibleAnswers := []\<rparr>) = Inr []"
proof (rule conjI)
  show "calculateAllEntropies pf std_sort (calc\<lparr>possibleAnswers := []\<rparr>) = Inr []"
    by (simp add: calculateAllEntropies_def)
next
  have "\<And>w. w \<in> set (allWords calc) \<Longrightarrow> \<exists>h. calculateEntropy pf calc w = Inr h"
    using wf by (auto simp: list_all_iff intro!: calculateEntropy_succeeds)
  from entropy_pairs_ok[OF this, of "allWords calc" "[]"]
  obtain ps where ps: "entropy_pairs pf calc (allWords calc) [] = Inr ps" "map snd ps = allWords calc"
    "\<forall>x \<in> set ps. calculateEntropy pf calc (snd x) = Inr (fst x)" by auto
  let ?s = "std_sort ps"
  have m: "mset ?s = mset ps" and so: "sorted_wrt (\<lambda>a b. \<not> entropy_greater b a) ?s"
    using srt by (simp_all add: std_sort_contract_def)
  have r: "calculateAllEntropies pf std_sort calc = Inr (map (to_result pf) ?s)"
    using ne ps(1) by (simp add: calculateAllEntropies_def)
  have l: "length (map (to_result pf) ?s) = length (allWords calc)"
    using mset_eq_length[OF m] arg_cong[OF ps(2), of length] by simp
  have w: "mset (map word (map (to_result pf) ?s)) = mset (allWords calc)"
  proof -
    have "map word (map (to_result pf) ?s) = map snd ?s" by (simp add: to_result_def)
    then have "mset (map word (map (to_result pf) ?s)) = mset (map snd ?s)" by (rule arg_cong)
    also have "\<dots> = image_mset snd (mset ?s)" by (rule mset_map)
    also have "\<dots> = image_mset snd (mset ps)" by (simp only: m)
    also have "\<dots> = mset (map snd ps)" by (rule mset_map[symmetric])
    finally show ?thesis by (simp only: ps(2))
  qed
  have e: "\<forall>r \<in> set (map (to_result pf) ?s). calculateEntropy pf calc (word r) = Inr (entropy r)"
  proof -
    have "set ?s = set ps" using m by (rule mset_eq_setD)
    then show ?thesis using ps(3) by (simp add: to_result_def)
  qed
  have s: "sorted_wrt (\<lambda>a b. entropy a \<ge> entropy b) (map (to_result pf) ?s)"
  proof -
    have "sorted_wrt (\<lambda>a b. fst a \<ge> fst b) ?s"
      using so by (simp add: entropy_greater_def not_less)
    then show ?thesis by (simp add: sorted_wrt_map to_result_def)
  qed
  show "\<exists>results. calculateAllEntropies pf std_sort calc = Inr results
               \<and> length results = length (allWords calc)
               \<and> mset (map word results) = mset (allWords calc)
               \<and> (\<forall>r \<in> set results. calculateEntropy pf calc (word r) = Inr (entropy r))
               \<and> sorted_wrt (\<lambda>a b. entropy a \<ge> entropy b) results"
    using r l w e s by blast
qed



theorem calculateAllEntropies_ranking_witness:
  "(\<exists>results. calculateAllEntropies exact_platform insertion_sort_desc
          \<lparr>allWords = [''CRANE'', ''SLATE'', ''TRACE''], possibleAnswers = [''CRANE'', ''SLATE'']\<rparr> = Inr results
       \<and> length results = length (allWords \<lparr>allWords = [''CRANE'', ''SLATE'', ''TRACE''], possibleAnswers = [''CRANE'', ''SLATE'']\<rparr>)
       \<and> mset (map word results) = mset (allWords \<lparr>allWords = [''CRANE'', ''SLATE'', ''TRACE''], possibleAnswers = [''CRANE'', ''SLATE'']\<rparr>)
       \<and> (\<forall>r \<in> set results. calculateEntropy exact_platform \<lparr>allWords = [''CRANE'', ''SLATE'', ''TRACE''], possibleAnswers = [''CRANE'', ''SLATE'']\<rparr> (word r) = Inr (entropy r))
       \<and> sorted_wrt (\<lambda>a b. entropy a \<ge> entropy b) results)
   \<and> calculateAllEntropies exact_platform insertion_sort_desc
        (\<lparr>allWords = [''CRANE'', ''SLATE'', ''TRACE''], possibleAnswers = [''CRANE'', ''SLATE'']\<rparr>\<lparr>possibleAnswers := []\<rparr>) = Inr []"
proof -
  have h1: "std_sort_contract insertion_sort_desc" by (rule insertion_sort_desc_contract)
  have h2: "possibleAnswers \<lparr>allWords = [''CRANE'', ''SLATE'', ''TRACE''], possibleAnswers = [''CRANE'', ''SLATE'']\<rparr> \<noteq> []"
    by simp
  have h3: "list_all (\<lambda>w. list_all is_upper (map toupper w)
               \<and> list_all (\<lambda>a. list_all is_upper a \<and> length a = length w)
                    (possibleAnswers \<lparr>allWords = [''CRANE'', ''SLATE'', ''TRACE''], possibleAnswers = [''CRANE'', ''SLATE'']\<rparr>))
             (allWords \<lparr>allWords = [''CRANE'', ''SLATE'', ''TRACE''], possibleAnswers = [''CRANE'', ''SLATE'']\<rparr>)"
    by (simp add: is_upper_def toupper_def char_code_def)
  show ?thesis by (rule calculateAllEntropies_ranking [OF h1 h2 h3])
qed


text \<open>
  C4 as stated fails. With no candidates the ranking of a dictionary of two words is
  empty. With one candidate both words have the entropy 0, and a sort that meets the
  contract leaves them in the dictionary's order, B before A, which is not the ascending
  lexicographic one.
\<close>

theorem calculateAllEntropies_ties_counterexample:
  "std_sort_contract insertion_sort_desc
   \<and> calculateAllEntropies exact_platform insertion_sort_desc \<lparr>allWords = [''B'', ''A''], possibleAnswers = []\<rparr> = Inr []
   \<and> calculateAllEntropies exact_platform insertion_sort_desc \<lparr>allWords = [''B'', ''A''], possibleAnswers = [''A'']\<rparr>
       = Inr [\<lparr>word = ''B'', entropy = 0, bitsOfInfo = 0\<rparr>, \<lparr>word = ''A'', entropy = 0, bitsOfInfo = 0\<rparr>]
   \<and> str_less ''A'' ''B''"
proof -
  have a: "calculateAllEntropies exact_platform insertion_sort_desc \<lparr>allWords = [''B'', ''A''], possibleAnswers = []\<rparr> = Inr []"
    by (simp add: calculateAllEntropies_def)
  have b: "calculateAllEntropies exact_platform insertion_sort_desc \<lparr>allWords = [''B'', ''A''], possibleAnswers = [''A'']\<rparr>
       = Inr [\<lparr>word = ''B'', entropy = 0, bitsOfInfo = 0\<rparr>, \<lparr>word = ''A'', entropy = 0, bitsOfInfo = 0\<rparr>]"
    by (simp add: calculateAllEntropies_def calculateEntropy_def to_result_def std_round_def
          entropy_greater_def exact_platform_def)
  have c: "str_less ''A'' ''B''" by (simp add: char_code_def)
  show ?thesis using insertion_sort_desc_contract a b c by blast
qed

section \<open>The exported C function\<close>

text \<open>
  C9. For every input string, on every platform, the exported function
  \<open>calculate_entropy_c\<close> returns 0:
  the calculator it builds has no possible answers, so \<open>calculateEntropy\<close> takes its
  \<open>size \<le> 1\<close> branch whatever the argument is.
\<close>

theorem calculate_entropy_c_zero:
  "possibleAnswers fresh_calculator = [] \<and> calculate_entropy_c pf input = Inr 0"
  by (simp add: calculate_entropy_c_def calculateEntropy_def fresh_calculator_def)

end
